theory Spec2Isabelle
  imports Main "HOL-Library.Multiset"
begin

section \<open>Errors\<close>

text \<open>
  Go error values as the package builds them: \<open>errors.New(msg)\<close> is an
  \<open>errorString\<close>, and \<open>fmt.Errorf\<close> with one \<open>%w\<close> verb is a \<open>wrapError\<close>
  holding the formatted message and the operand of \<open>%w\<close>. Errors handed in by the
  caller (a constructor failure, \<open>ctx.Err()\<close>) are arbitrary values of the type.
\<close>

datatype error = errorString string | wrapError string error

fun Error :: "error \<Rightarrow> string" where
  "Error (errorString s) = s"
| "Error (wrapError msg err) = msg"

fun Unwrap :: "error \<Rightarrow> error option" where
  "Unwrap (errorString s) = None"
| "Unwrap (wrapError msg err) = Some err"

text \<open>\<open>errors.Is\<close>: the error itself or anything on its \<open>Unwrap\<close> chain.\<close>

fun errors_Is :: "error \<Rightarrow> error \<Rightarrow> bool" where
  "errors_Is (errorString s) target = (errorString s = target)"
| "errors_Is (wrapError msg err) target =
     (wrapError msg err = target \<or> errors_Is err target)"

definition ErrNew :: error where
  "ErrNew = errorString ''failed to make new pool object''"

definition ErrStoppingOrStopped :: error where
  "ErrStoppingOrStopped = errorString ''pool is stopping or has stopped''"

text \<open>
  \<open>fmt.Errorf("%w: %v", wrapped, shown)\<close>: the message is the two messages joined by
  a colon and a space; only the \<open>%w\<close> operand is kept for \<open>Unwrap\<close>.
\<close>

definition Errorf_w_v :: "error \<Rightarrow> error \<Rightarrow> error" where
  "Errorf_w_v wrapped shown = wrapError (Error wrapped @ '': '' @ Error shown) wrapped"

section \<open>Channels\<close>

text \<open>
  A buffered channel that is never closed (\<open>p.idle\<close>): the queued values, oldest
  first, and the capacity. A send or a receive that cannot proceed is \<open>None\<close>; the
  goroutine then waits. A value sent while a receiver waits is queued and received in
  two steps. With capacity 0 the channel has no buffer and a send could only proceed by
  meeting a receiver; no object ever leaves such a pool, so no \<open>Put\<close> is made on it
  under correct use, and the meeting is left out. The channel \<open>p.stopping\<close> carries no
  value and is only ever closed, so it is a flag: a receive from it proceeds exactly when
  it is closed.
\<close>

record 'a chan =
  buf :: "'a list"
  cap :: nat

definition make_chan :: "nat \<Rightarrow> 'a chan" where
  "make_chan n = \<lparr>buf = [], cap = n\<rparr>"

definition len :: "'a chan \<Rightarrow> nat" where
  "len c = length (buf c)"

definition send :: "'a chan \<Rightarrow> 'a \<Rightarrow> 'a chan option" where
  "send c x = (if len c < cap c then Some (c\<lparr>buf := buf c @ [x]\<rparr>) else None)"

definition recv :: "'a chan \<Rightarrow> ('a \<times> 'a chan) option" where
  "recv c = (case buf c of [] \<Rightarrow> None | x # rest \<Rightarrow> Some (x, c\<lparr>buf := rest\<rparr>))"

section \<open>Configuration (config.go)\<close>

text \<open>
  \<open>NewFunc\<close> takes no argument, so all that the pool sees of it is the sequence of its
  results: \<open>f i\<close> is what the call number \<open>i\<close> (from 0) returns, an object together
  with an error or nil. \<open>DestroyFunc\<close> returns nothing; it acts on the world outside the
  pool, a state of type \<open>'w\<close>. Either function may be nil (\<open>None\<close>). Both are taken
  to return when called, and \<open>make\<close> to find the memory for the channel.
\<close>

record ('a, 'w) Config =
  Count :: int
  NewFunc :: "(nat \<Rightarrow> 'a \<times> error option) option"
  DestroyFunc :: "('a \<Rightarrow> 'w \<Rightarrow> 'w) option"

definition Check :: "('a, 'w) Config \<Rightarrow> error option" where
  "Check c =
     (if Count c < 0 then Some (errorString ''count must be greater than or equal to zero'')
      else if NewFunc c = None then Some (errorString ''newFunc is required'')
      else None)"

section \<open>The pool (pool.go)\<close>

record ('a, 'w) Pool =
  newFunc :: "(nat \<Rightarrow> 'a \<times> error option) option"
  destroyFunc :: "('a \<Rightarrow> 'w \<Rightarrow> 'w) option"
  idle :: "'a chan"
  stopping :: bool

text \<open>
  What a call does: it returns a value, it waits for ever on a channel, or it panics.
\<close>

datatype 'r outcome = Returns 'r | Blocks | Panics

text \<open>\<open>if p.destroyFunc != nil { p.destroyFunc(object) }\<close>\<close>

definition destroy :: "('a, 'w) Pool \<Rightarrow> 'a \<Rightarrow> 'w \<Rightarrow> 'w" where
  "destroy p object w = (case destroyFunc p of None \<Rightarrow> w | Some d \<Rightarrow> d object w)"

subsection \<open>New\<close>

text \<open>
  The roll-back loop \<open>for range len(p.idle)\<close>: the bound is read once, each turn
  receives one object and destroys it.
\<close>

fun New_rollback :: "nat \<Rightarrow> ('a, 'w) Pool \<Rightarrow> 'w \<Rightarrow> (('a, 'w) Pool \<times> 'w) outcome" where
  "New_rollback 0 p w = Returns (p, w)"
| "New_rollback (Suc k) p w =
     (case recv (idle p) of
        None \<Rightarrow> Blocks
      | Some (object, c) \<Rightarrow> New_rollback k (p\<lparr>idle := c\<rparr>) (destroy p object w))"

text \<open>
  The construction loop \<open>for range cap(p.idle)\<close> with \<open>k\<close> turns left, \<open>i\<close> calls of
  the constructor made so far. Calling a nil \<open>newFunc\<close> panics.
\<close>

fun New_loop ::
  "nat \<Rightarrow> nat \<Rightarrow> ('a, 'w) Pool \<Rightarrow> 'w \<Rightarrow> ((('a, 'w) Pool option \<times> error option) \<times> 'w) outcome"
where
  "New_loop 0 i p w = Returns ((Some p, None), w)"
| "New_loop (Suc k) i p w =
     (case newFunc p of
        None \<Rightarrow> Panics
      | Some f \<Rightarrow>
         (case f i of
            (object, Some err) \<Rightarrow>
              (case New_rollback (len (idle p)) p w of
                 Returns (p', w') \<Rightarrow> Returns ((None, Some (Errorf_w_v ErrNew err)), w')
               | Blocks \<Rightarrow> Blocks
               | Panics \<Rightarrow> Panics)
          | (object, None) \<Rightarrow>
              (case send (idle p) object of
                 None \<Rightarrow> Blocks
               | Some c \<Rightarrow> New_loop k (Suc i) (p\<lparr>idle := c\<rparr>) w)))"

definition New ::
  "('a, 'w) Config \<Rightarrow> 'w \<Rightarrow> ((('a, 'w) Pool option \<times> error option) \<times> 'w) outcome"
where
  "New config w =
     (case Check config of
        Some err \<Rightarrow> Returns ((None, Some err), w)
      | None \<Rightarrow>
         (let p = \<lparr>newFunc = NewFunc config,
                   destroyFunc = DestroyFunc config,
                   idle = make_chan (nat (Count config)),
                   stopping = False\<rparr>
          in New_loop (cap (idle p)) 0 p w))"

subsection \<open>Get\<close>

text \<open>
  A context as \<open>Get\<close> uses it: \<open>ctx.Err()\<close> is nil until the context is done, and
  the channel \<open>ctx.Done()\<close> is closed exactly from then on.
\<close>

datatype ctx = Ctx (Err: "error option")

definition Done :: "ctx \<Rightarrow> bool" where
  "Done c = (case Err c of None \<Rightarrow> False | Some e \<Rightarrow> True)"

text \<open>
  \<open>Get\<close> is one \<open>select\<close> with three cases and no default. Go picks any case whose
  communication can proceed; \<open>Get p c k\<close> is what the call returns, and the pool it
  leaves, when the case \<open>k\<close> is picked, and \<open>None\<close> when \<open>k\<close> cannot proceed. The call
  waits while no case can proceed. The zero value of \<open>T\<close> is \<open>0\<close>.
\<close>

datatype select_case = RecvIdle | RecvDone | RecvStopping

fun Get ::
  "('a::zero, 'w) Pool \<Rightarrow> ctx \<Rightarrow> select_case \<Rightarrow> (('a \<times> error option) \<times> ('a, 'w) Pool) option"
where
  "Get p c RecvIdle =
     (case recv (idle p) of
        None \<Rightarrow> None
      | Some (object, ch) \<Rightarrow> Some ((object, None), p\<lparr>idle := ch\<rparr>))"
| "Get p c RecvDone = (if Done c then Some ((0, Err c), p) else None)"
| "Get p c RecvStopping =
     (if stopping p then Some ((0, Some ErrStoppingOrStopped), p) else None)"

text \<open>The cases of the \<open>select\<close> that can proceed; the call waits when there is none.\<close>

definition Get_ready :: "('a::zero, 'w) Pool \<Rightarrow> ctx \<Rightarrow> select_case list" where
  "Get_ready p c = filter (\<lambda>k. Get p c k \<noteq> None) [RecvIdle, RecvDone, RecvStopping]"

subsection \<open>Put\<close>

definition Put :: "('a, 'w) Pool \<Rightarrow> 'a \<Rightarrow> ('a, 'w) Pool option" where
  "Put p object =
     (case send (idle p) object of None \<Rightarrow> None | Some c \<Rightarrow> Some (p\<lparr>idle := c\<rparr>))"

subsection \<open>Stop\<close>

text \<open>
  Other goroutines run between the statements of \<open>Stop\<close>, so a call of \<open>Stop\<close> is a
  position in its body: at the \<open>select\<close>, in its \<open>default\<close> branch before the
  \<open>close\<close>, at the head of the loop with \<open>k\<close> turns left, holding the object just
  received with \<open>k\<close> turns left after this one, or returned (from the \<open>select\<close>, or
  past the loop).
\<close>

datatype 'a stop_pc =
    AtSelect
  | AtClose
  | AtLoop nat
  | AtDestroy nat 'a
  | ReturnedEarly
  | Returned

text \<open>
  One statement of a call of \<open>Stop\<close>. Closing a closed channel panics; a receive
  from the empty \<open>p.idle\<close> waits; a call that has returned stays where it is.
\<close>

fun Stop_step ::
  "('a, 'w) Pool \<Rightarrow> 'w \<Rightarrow> 'a stop_pc \<Rightarrow> (('a, 'w) Pool \<times> 'w \<times> 'a stop_pc) outcome"
where
  "Stop_step p w AtSelect = Returns (p, w, if stopping p then ReturnedEarly else AtClose)"
| "Stop_step p w AtClose =
     (if stopping p then Panics else Returns (p\<lparr>stopping := True\<rparr>, w, AtLoop (cap (idle p))))"
| "Stop_step p w (AtLoop 0) = Returns (p, w, Returned)"
| "Stop_step p w (AtLoop (Suc k)) =
     (case recv (idle p) of
        None \<Rightarrow> Blocks
      | Some (object, c) \<Rightarrow> Returns (p\<lparr>idle := c\<rparr>, w, AtDestroy k object))"
| "Stop_step p w (AtDestroy k object) = Returns (p, destroy p object w, AtLoop k)"
| "Stop_step p w ReturnedEarly = Returns (p, w, ReturnedEarly)"
| "Stop_step p w Returned = Returns (p, w, Returned)"

text \<open>
  A whole call of \<open>Stop\<close> with no step of another goroutine in between: it returns, or
  it waits for ever at a receive because an object is missing from the queue.
\<close>

fun Stop_loop :: "nat \<Rightarrow> ('a, 'w) Pool \<Rightarrow> 'w \<Rightarrow> (('a, 'w) Pool \<times> 'w) outcome" where
  "Stop_loop 0 p w = Returns (p, w)"
| "Stop_loop (Suc k) p w =
     (case recv (idle p) of
        None \<Rightarrow> Blocks
      | Some (object, c) \<Rightarrow> Stop_loop k (p\<lparr>idle := c\<rparr>) (destroy p object w))"

definition Stop :: "('a, 'w) Pool \<Rightarrow> 'w \<Rightarrow> (('a, 'w) Pool \<times> 'w) outcome" where
  "Stop p w =
     (if stopping p then Returns (p, w)
      else Stop_loop (cap (idle p)) (p\<lparr>stopping := True\<rparr>) w)"

section \<open>The pool among its callers\<close>

text \<open>
  After \<open>New\<close> the pool is shared. Each channel operation is one atomic step, so a run
  of the program is a sequence of events: a call of \<open>Get\<close> commits to a case of its
  \<open>select\<close>, a call of \<open>Put\<close> sends, a call of \<open>Stop\<close> begins, or a call of \<open>Stop\<close>
  that has begun executes its next statement. Beside the pool the state holds what the
  callers hold and what has been observed of the pool:
  \<^item> \<open>held\<close>: the objects handed out by \<open>Get\<close> and not yet passed to \<open>Put\<close>;
  \<^item> \<open>destroyed\<close>: the objects on which \<open>Stop\<close> has executed its destroy statement,
    oldest first;
  \<^item> \<open>calls\<close>: the calls of \<open>Stop\<close> made so far, each at its position;
  \<^item> \<open>crashed\<close>: a panic has ended the program.
  Correct use is part of the events: \<open>Put\<close> is called only with an object the callers
  hold. An event that cannot happen in a state (a call that waits, a \<open>Put\<close> outside
  correct use, anything after a panic) is \<open>None\<close>.
\<close>

record ('a, 'w) system =
  pool :: "('a, 'w) Pool"
  world :: 'w
  held :: "'a list"
  destroyed :: "'a list"
  calls :: "'a stop_pc list"
  crashed :: bool

datatype 'a event =
    EvGet ctx select_case
  | EvPut 'a
  | EvStop
  | EvStopStep nat

definition start :: "('a, 'w) Pool \<Rightarrow> 'w \<Rightarrow> ('a, 'w) system" where
  "start p w = \<lparr>pool = p, world = w, held = [], destroyed = [], calls = [], crashed = False\<rparr>"

fun in_hand :: "'a stop_pc \<Rightarrow> 'a list" where
  "in_hand (AtDestroy k object) = [object]"
| "in_hand pc = []"

fun exec :: "'a event \<Rightarrow> ('a::zero, 'w) system \<Rightarrow> ('a, 'w) system option" where
  "exec (EvGet c k) s =
     (if crashed s then None
      else case Get (pool s) c k of
        None \<Rightarrow> None
      | Some ((object, err), p') \<Rightarrow>
          Some (s\<lparr>pool := p',
                 held := (case err of None \<Rightarrow> held s @ [object] | Some e \<Rightarrow> held s)\<rparr>))"
| "exec (EvPut object) s =
     (if crashed s \<or> object \<notin> set (held s) then None
      else case Put (pool s) object of
        None \<Rightarrow> None
      | Some p' \<Rightarrow> Some (s\<lparr>pool := p', held := remove1 object (held s)\<rparr>))"
| "exec EvStop s =
     (if crashed s then None else Some (s\<lparr>calls := calls s @ [AtSelect]\<rparr>))"
| "exec (EvStopStep i) s =
     (if crashed s \<or> length (calls s) \<le> i then None
      else case Stop_step (pool s) (world s) (calls s ! i) of
        Returns (p', w', pc') \<Rightarrow>
          Some (s\<lparr>pool := p', world := w',
                 destroyed := destroyed s @ in_hand (calls s ! i),
                 calls := (calls s)[i := pc']\<rparr>)
      | Blocks \<Rightarrow> None
      | Panics \<Rightarrow> Some (s\<lparr>crashed := True\<rparr>))"

fun run :: "'a event list \<Rightarrow> ('a::zero, 'w) system \<Rightarrow> ('a, 'w) system option" where
  "run [] s = Some s"
| "run (e # es) s = (case exec e s of None \<Rightarrow> None | Some s' \<Rightarrow> run es s')"

text \<open>
  What a call of \<open>Stop\<close> still has to receive, and whether it is the call that closed
  \<open>p.stopping\<close> (it is in the loop or past it).
\<close>

fun turns_left :: "'a stop_pc \<Rightarrow> nat" where
  "turns_left (AtLoop k) = k"
| "turns_left (AtDestroy k object) = k"
| "turns_left pc = 0"

fun tearing_down :: "'a stop_pc \<Rightarrow> bool" where
  "tearing_down (AtLoop k) = True"
| "tearing_down (AtDestroy k object) = True"
| "tearing_down Returned = True"
| "tearing_down pc = False"

text \<open>The objects \<open>Stop\<close> has received and not yet destroyed.\<close>

definition in_teardown :: "('a, 'w) system \<Rightarrow> 'a list" where
  "in_teardown s = concat (map in_hand (calls s))"

section \<open>The invariant of the shared pool\<close>

text \<open>
  For a pool that \<open>New\<close> returned holding the objects \<open>objs\<close>, in a world \<open>w0\<close>:
  the capacity and the destructor never change; every object is in exactly one place
  (idle, held by a caller, received by \<open>Stop\<close> and not yet destroyed, or destroyed);
  the world is what destroying the destroyed objects in order makes of \<open>w0\<close>; once
  \<open>p.stopping\<close> is closed exactly one call of \<open>Stop\<close> is in or past the loop, and what
  it has still to receive, holds and has destroyed adds up to the capacity; before, no
  call is past the \<open>close\<close> and nothing has been destroyed.
\<close>

definition pool_inv :: "'a list \<Rightarrow> ('a, 'w) Pool \<Rightarrow> 'w \<Rightarrow> ('a, 'w) system \<Rightarrow> bool" where
  "pool_inv objs p0 w0 s =
     (cap (idle (pool s)) = length objs \<and>
      destroyFunc (pool s) = destroyFunc p0 \<and>
      mset (buf (idle (pool s))) + mset (held s) + mset (concat (map in_hand (calls s)))
        + mset (destroyed s) = mset objs \<and>
      world s = fold (destroy p0) (destroyed s) w0 \<and>
      (stopping (pool s) \<longrightarrow>
         sum_list (map turns_left (calls s)) + length (concat (map in_hand (calls s)))
           + length (destroyed s) = length objs \<and>
         length (filter tearing_down (calls s)) = 1) \<and>
      (\<not> stopping (pool s) \<longrightarrow>
         list_all (\<lambda>pc. pc = AtSelect \<or> pc = AtClose) (calls s) \<and> destroyed s = []))"

section \<open>Example collaborators\<close>

text \<open>
  The destructor of \<open>TestPoolStopWithBusyObjects\<close>, which appends each object to a
  list; a constructor that never fails and numbers its objects from 10; a constructor
  that fails on its third call; and the error of a cancelled context.
\<close>

definition spy :: "nat \<Rightarrow> nat list \<Rightarrow> nat list" where
  "spy object w = w @ [object]"

definition numbered :: "nat \<Rightarrow> nat \<times> error option" where
  "numbered i = (10 + i, None)"

definition fails_third :: "nat \<Rightarrow> nat \<times> error option" where
  "fails_third i = (if i < 2 then (10 + i, None) else (0, Some (errorString ''boom'')))"

definition Canceled :: error where
  "Canceled = errorString ''context canceled''"

text \<open>
  A pool of these collaborators with a given idle queue, capacity and stop flag; the
  configuration with two objects; a run in which a caller takes object 10, \<open>Stop\<close> is
  called and runs until it waits, the caller returns the object and \<open>Stop\<close> finishes;
  and three states of that run: \<open>Stop\<close> at the head of its loop, \<open>Stop\<close> waiting for
  the borrowed object, \<open>Stop\<close> returned.
\<close>

definition pool_of :: "nat list \<Rightarrow> nat \<Rightarrow> bool \<Rightarrow> (nat, nat list) Pool" where
  "pool_of q n st =
     \<lparr>newFunc = Some numbered, destroyFunc = Some spy, idle = \<lparr>buf = q, cap = n\<rparr>, stopping = st\<rparr>"

definition config2 :: "(nat, nat list) Config" where
  "config2 = \<lparr>Count = 2, NewFunc = Some numbered, DestroyFunc = Some spy\<rparr>"

definition get_stop_put :: "nat event list" where
  "get_stop_put =
     [EvGet (Ctx None) RecvIdle, EvStop, EvStopStep 0, EvStopStep 0, EvStopStep 0, EvStopStep 0,
      EvPut 10, EvStopStep 0, EvStopStep 0, EvStopStep 0]"

definition stopped2 :: "(nat, nat list) system" where
  "stopped2 = \<lparr>pool = pool_of [] 2 True, world = [11, 10], held = [], destroyed = [11, 10],
                calls = [Returned], crashed = False\<rparr>"

definition draining2 :: "(nat, nat list) system" where
  "draining2 = \<lparr>pool = pool_of [11] 2 True, world = [], held = [10], destroyed = [],
                 calls = [AtLoop 2], crashed = False\<rparr>"

definition waiting2 :: "(nat, nat list) system" where
  "waiting2 = \<lparr>pool = pool_of [] 2 True, world = [11], held = [10], destroyed = [11],
                calls = [AtLoop 1], crashed = False\<rparr>"

section \<open>What New does\<close>

lemma destroy_idle_update [simp]: "destroy (p\<lparr>idle := c\<rparr>) = destroy p"
  by (simp add: destroy_def fun_eq_iff)

lemma destroy_stopping_update [simp]: "destroy (p\<lparr>stopping := b\<rparr>) = destroy p"
  by (simp add: destroy_def fun_eq_iff)

lemma New_rollback_drains:
  "k \<le> len (idle p) \<Longrightarrow>
     New_rollback k p w =
       Returns (p\<lparr>idle := (idle p)\<lparr>buf := drop k (buf (idle p))\<rparr>\<rparr>,
                fold (destroy p) (take k (buf (idle p))) w)"
proof (induction k arbitrary: p w)
  case 0
  then show ?case by simp
next
  case (Suc k)
  then obtain x rest where b: "buf (idle p) = x # rest"
    by (cases "buf (idle p)") (auto simp: len_def)
  with Suc.prems have "k \<le> len (idle (p\<lparr>idle := (idle p)\<lparr>buf := rest\<rparr>\<rparr>))"
    by (simp add: len_def)
  from Suc.IH [OF this] b show ?case
    by (simp add: recv_def)
qed

lemma New_loop_fails:
  assumes "newFunc p = Some f"
    and "len (idle p) + k \<le> cap (idle p)"
    and "i \<le> m" and "m < i + k"
    and "\<forall>j. i \<le> j \<and> j < m \<longrightarrow> snd (f j) = None"
    and "snd (f m) = Some e"
  shows "New_loop k i p w =
           Returns ((None, Some (Errorf_w_v ErrNew e)),
                    fold (destroy p) (buf (idle p) @ map (\<lambda>j. fst (f j)) [i..<m]) w)"
  using assms
proof (induction k arbitrary: i p w)
  case 0
  then show ?case by simp
next
  case (Suc k)
  show ?case
  proof (cases "i = m")
    case True
    obtain object where fm: "f m = (object, Some e)"
      using Suc.prems(6) by (cases "f m") auto
    have "New_rollback (len (idle p)) p w =
            Returns (p\<lparr>idle := (idle p)\<lparr>buf := drop (len (idle p)) (buf (idle p))\<rparr>\<rparr>,
                     fold (destroy p) (take (len (idle p)) (buf (idle p))) w)"
      by (rule New_rollback_drains) simp
    with True fm Suc.prems(1) show ?thesis
      by (simp add: len_def)
  next
    case False
    with Suc.prems have lt: "i < m" by simp
    with Suc.prems(5) have "snd (f i) = None" by simp
    then obtain object where fi: "f i = (object, None)"
      by (cases "f i") auto
    let ?p = "p\<lparr>idle := (idle p)\<lparr>buf := buf (idle p) @ [object]\<rparr>\<rparr>"
    have s: "send (idle p) object = Some ((idle p)\<lparr>buf := buf (idle p) @ [object]\<rparr>)"
      using Suc.prems(2) by (simp add: send_def)
    have "New_loop k (Suc i) ?p w =
            Returns ((None, Some (Errorf_w_v ErrNew e)),
                     fold (destroy ?p) (buf (idle ?p) @ map (\<lambda>j. fst (f j)) [Suc i..<m]) w)"
      using Suc.prems lt by (intro Suc.IH) (auto simp: len_def)
    with fi s Suc.prems(1) lt show ?thesis
      by (simp add: upt_conv_Cons)
  qed
qed

lemma New_loop_succeeds:
  assumes "newFunc p = Some f"
    and "len (idle p) + k \<le> cap (idle p)"
    and "\<forall>j. i \<le> j \<and> j < i + k \<longrightarrow> snd (f j) = None"
  shows "New_loop k i p w =
           Returns ((Some (p\<lparr>idle := (idle p)\<lparr>buf := buf (idle p) @ map (\<lambda>j. fst (f j)) [i..<i + k]\<rparr>\<rparr>), None), w)"
  using assms
proof (induction k arbitrary: i p w)
  case 0
  then show ?case by simp
next
  case (Suc k)
  from Suc.prems(3) have "snd (f i) = None" by simp
  then obtain object where fi: "f i = (object, None)"
    by (cases "f i") auto
  let ?p = "p\<lparr>idle := (idle p)\<lparr>buf := buf (idle p) @ [object]\<rparr>\<rparr>"
  have s: "send (idle p) object = Some ((idle p)\<lparr>buf := buf (idle p) @ [object]\<rparr>)"
    using Suc.prems(2) by (simp add: send_def)
  have "New_loop k (Suc i) ?p w =
          Returns ((Some (?p\<lparr>idle := (idle ?p)\<lparr>buf := buf (idle ?p) @ map (\<lambda>j. fst (f j)) [Suc i..<Suc i + k]\<rparr>\<rparr>), None), w)"
    using Suc.prems by (intro Suc.IH) (auto simp: len_def)
  moreover have "[i..<i + Suc k] = i # [Suc i..<Suc i + k]"
    by (simp add: upt_conv_Cons del: upt_Suc)
  ultimately show ?case
    using fi s Suc.prems(1) by (simp del: upt_Suc)
qed

section \<open>Counting over the calls of Stop\<close>

text \<open>
  When one call moves from one position to another, a sum over all calls changes by what
  the call contributed before and after.
\<close>

lemma sum_list_map_update:
  fixes h :: "'b \<Rightarrow> 'm::comm_monoid_add"
  shows "i < length xs \<Longrightarrow>
    sum_list (map h (xs[i := y])) + h (xs ! i) = sum_list (map h xs) + h y"
proof (induction xs arbitrary: i)
  case Nil
  then show ?case by simp
next
  case (Cons x xs)
  show ?case
  proof (cases i)
    case 0
    then show ?thesis by (simp add: ac_simps)
  next
    case (Suc j)
    with Cons.prems have "j < length xs" by simp
    from Cons.IH [OF this] Suc show ?thesis
      by (simp add: ac_simps)
  qed
qed

lemma mset_hands: "mset (concat (map in_hand xs)) = sum_list (map (\<lambda>pc. mset (in_hand pc)) xs)"
  by (induction xs) simp_all

lemma length_hands: "length (concat (map in_hand xs)) = sum_list (map (\<lambda>pc. length (in_hand pc)) xs)"
  by (induction xs) simp_all

lemma count_tearing:
  "length (filter tearing_down xs) = sum_list (map (\<lambda>pc. if tearing_down pc then 1 else 0) xs)"
  by (induction xs) simp_all

lemma hands_update:
  "i < length xs \<Longrightarrow>
    mset (concat (map in_hand (xs[i := y]))) + mset (in_hand (xs ! i))
      = mset (concat (map in_hand xs)) + mset (in_hand y)"
  unfolding mset_hands by (rule sum_list_map_update)

lemma length_hands_update:
  "i < length xs \<Longrightarrow>
    length (concat (map in_hand (xs[i := y]))) + length (in_hand (xs ! i))
      = length (concat (map in_hand xs)) + length (in_hand y)"
  unfolding length_hands by (rule sum_list_map_update)

lemma turns_update:
  "i < length xs \<Longrightarrow>
    sum_list (map turns_left (xs[i := y])) + turns_left (xs ! i)
      = sum_list (map turns_left xs) + turns_left y"
  by (rule sum_list_map_update)

lemma tearing_update:
  "i < length xs \<Longrightarrow>
    length (filter tearing_down (xs[i := y])) + (if tearing_down (xs ! i) then 1 else 0)
      = length (filter tearing_down xs) + (if tearing_down y then 1 else 0)"
  unfolding count_tearing by (rule sum_list_map_update)

lemma idle_calls:
  assumes "list_all (\<lambda>pc. pc = AtSelect \<or> pc = AtClose) xs"
  shows "concat (map in_hand xs) = []" and "sum_list (map turns_left xs) = 0"
    and "filter tearing_down xs = []"
  using assms by (induction xs) auto

section \<open>The three ways New returns\<close>

lemma New_loop_cases:
  assumes "newFunc p = Some f" and "len (idle p) + k \<le> cap (idle p)"
  shows "(\<forall>j. i \<le> j \<and> j < i + k \<longrightarrow> snd (f j) = None) \<and>
         New_loop k i p w =
           Returns ((Some (p\<lparr>idle := (idle p)\<lparr>buf := buf (idle p) @ map (\<lambda>j. fst (f j)) [i..<i + k]\<rparr>\<rparr>), None), w)
       \<or> (\<exists>m e. i \<le> m \<and> m < i + k \<and> (\<forall>j. i \<le> j \<and> j < m \<longrightarrow> snd (f j) = None) \<and>
            snd (f m) = Some e \<and>
            New_loop k i p w =
              Returns ((None, Some (Errorf_w_v ErrNew e)),
                       fold (destroy p) (buf (idle p) @ map (\<lambda>j. fst (f j)) [i..<m]) w))"
proof (cases "\<forall>j. i \<le> j \<and> j < i + k \<longrightarrow> snd (f j) = None")
  case True
  with New_loop_succeeds [OF assms, of i w] show ?thesis by blast
next
  case False
  define bad where "bad j = (i \<le> j \<and> j < i + k \<and> snd (f j) \<noteq> None)" for j
  from False have ex: "\<exists>j. bad j" by (auto simp: bad_def)
  define m where "m = (LEAST j. bad j)"
  from ex have bm: "bad m" unfolding m_def by (auto intro: LeastI)
  have least: "\<And>j. j < m \<Longrightarrow> \<not> bad j" unfolding m_def by (rule not_less_Least)
  from bm obtain e where e: "snd (f m) = Some e" by (auto simp: bad_def)
  have before: "\<forall>j. i \<le> j \<and> j < m \<longrightarrow> snd (f j) = None"
  proof (intro allI impI)
    fix j assume j: "i \<le> j \<and> j < m"
    with least [of j] bm show "snd (f j) = None" by (auto simp: bad_def)
  qed
  from bm have im: "i \<le> m" "m < i + k" by (auto simp: bad_def)
  from New_loop_fails [OF assms im before e, of w] im before e show ?thesis by blast
qed

lemma New_cases:
  "(\<exists>err. Check config = Some err \<and> New config w = Returns ((None, Some err), w))
   \<or> (\<exists>f. Check config = None \<and> NewFunc config = Some f \<and>
        (\<forall>j. j < nat (Count config) \<longrightarrow> snd (f j) = None) \<and>
        New config w =
          Returns ((Some \<lparr>newFunc = Some f, destroyFunc = DestroyFunc config,
                          idle = \<lparr>buf = map (\<lambda>j. fst (f j)) [0..<nat (Count config)],
                                  cap = nat (Count config)\<rparr>,
                          stopping = False\<rparr>, None), w))
   \<or> (\<exists>f m e. Check config = None \<and> NewFunc config = Some f \<and> m < nat (Count config) \<and>
        (\<forall>j. j < m \<longrightarrow> snd (f j) = None) \<and> snd (f m) = Some e \<and>
        New config w =
          Returns ((None, Some (Errorf_w_v ErrNew e)),
                   case DestroyFunc config of
                     None \<Rightarrow> w
                   | Some d \<Rightarrow> fold d (map (\<lambda>j. fst (f j)) [0..<m]) w))"
proof (cases "Check config")
  case (Some err)
  then show ?thesis by (simp add: New_def)
next
  case None
  then obtain f where f: "NewFunc config = Some f"
    by (cases "NewFunc config") (auto simp: Check_def split: if_splits)
  let ?n = "nat (Count config)"
  let ?p = "\<lparr>newFunc = NewFunc config, destroyFunc = DestroyFunc config,
             idle = make_chan ?n, stopping = False\<rparr>"
  have n: "New config w = New_loop ?n 0 ?p w"
    using None by (simp add: New_def make_chan_def)
  have pf: "newFunc ?p = Some f" using f by simp
  have room: "len (idle ?p) + ?n \<le> cap (idle ?p)" by (simp add: len_def make_chan_def)
  have fold_d: "fold (destroy ?p) xs w =
      (case DestroyFunc config of None \<Rightarrow> w | Some d \<Rightarrow> fold d xs w)" for xs
    by (induction xs arbitrary: w) (auto simp: destroy_def split: option.splits)
  from New_loop_cases [OF pf room, of 0 w] show ?thesis
  proof (elim disjE conjE exE)
    assume "\<forall>j. 0 \<le> j \<and> j < 0 + ?n \<longrightarrow> snd (f j) = None"
      and "New_loop ?n 0 ?p w =
        Returns ((Some (?p\<lparr>idle := (idle ?p)\<lparr>buf := buf (idle ?p) @ map (\<lambda>j. fst (f j)) [0..<0 + ?n]\<rparr>\<rparr>), None), w)"
    with n None f show ?thesis by (simp add: make_chan_def)
  next
    fix m e
    assume "0 \<le> m" "m < 0 + ?n" "\<forall>j. 0 \<le> j \<and> j < m \<longrightarrow> snd (f j) = None" "snd (f m) = Some e"
      and "New_loop ?n 0 ?p w =
        Returns ((None, Some (Errorf_w_v ErrNew e)),
                 fold (destroy ?p) (buf (idle ?p) @ map (\<lambda>j. fst (f j)) [0..<m]) w)"
    with n None f fold_d show ?thesis
      by (simp add: make_chan_def) blast
  qed
qed

section \<open>Every event keeps the invariant\<close>

lemma destroy_cong: "destroyFunc p = destroyFunc q \<Longrightarrow> destroy p = destroy q"
  by (simp add: destroy_def fun_eq_iff)

lemma inv_start:
  "cap (idle p) = length (buf (idle p)) \<Longrightarrow> \<not> stopping p \<Longrightarrow>
     pool_inv (buf (idle p)) p w (start p w)"
  by (simp add: pool_inv_def start_def in_teardown_def)

lemma Get_cases:
  assumes "Get p c k = Some ((object, err), p')"
  shows "(err = None \<and> (\<exists>rest. buf (idle p) = object # rest \<and>
            p' = p\<lparr>idle := (idle p)\<lparr>buf := rest\<rparr>\<rparr>))
         \<or> (\<exists>e. err = Some e \<and> object = 0 \<and> p' = p)"
  using assms
  by (cases k) (auto simp: recv_def Done_def split: list.splits option.splits if_splits)

lemma inv_Get:
  assumes "pool_inv objs p0 w0 s" and "exec (EvGet c k) s = Some s'"
  shows "pool_inv objs p0 w0 s'"
proof -
  from assms(2) obtain object err p' where
    g: "Get (pool s) c k = Some ((object, err), p')" and
    s': "s' = s\<lparr>pool := p', held := (case err of None \<Rightarrow> held s @ [object] | Some e \<Rightarrow> held s)\<rparr>"
    by (auto split: if_splits option.splits)
  from Get_cases [OF g] show ?thesis
  proof (elim disjE conjE exE)
    fix rest
    assume "err = None" "buf (idle (pool s)) = object # rest"
      "p' = (pool s)\<lparr>idle := (idle (pool s))\<lparr>buf := rest\<rparr>\<rparr>"
    with assms(1) s' show ?thesis
      by (simp add: pool_inv_def in_teardown_def)
  next
    fix e
    assume "err = Some e" "object = 0" "p' = pool s"
    with assms(1) s' show ?thesis
      by (simp add: pool_inv_def in_teardown_def)
  qed
qed

lemma inv_Put:
  assumes "pool_inv objs p0 w0 s" and "exec (EvPut object) s = Some s'"
  shows "pool_inv objs p0 w0 s'"
proof -
  from assms(2) have h: "object \<in> set (held s)"
    and s': "s' = s\<lparr>pool := (pool s)\<lparr>idle := (idle (pool s))\<lparr>buf := buf (idle (pool s)) @ [object]\<rparr>\<rparr>,
                   held := remove1 object (held s)\<rparr>"
    by (auto simp: Put_def send_def split: if_splits option.splits)
  from h have eq: "mset (buf (idle (pool s)) @ [object]) + mset (remove1 object (held s))
      = mset (buf (idle (pool s))) + mset (held s)"
    by simp
  from assms(1) have "mset (buf (idle (pool s))) + mset (held s)
      + mset (concat (map in_hand (calls s))) + mset (destroyed s) = mset objs"
    by (simp add: pool_inv_def)
  then have "mset (buf (idle (pool s)) @ [object]) + mset (remove1 object (held s))
      + mset (concat (map in_hand (calls s))) + mset (destroyed s) = mset objs"
    by (simp only: eq)
  with assms(1) s' show ?thesis
    by (simp add: pool_inv_def del: mset_append mset_remove1)
qed

lemma inv_Stop:
  assumes "pool_inv objs p0 w0 s" and "exec EvStop s = Some s'"
  shows "pool_inv objs p0 w0 s'"
proof -
  from assms(2) have s': "s' = s\<lparr>calls := calls s @ [AtSelect]\<rparr>"
    by (auto split: if_splits)
  with assms(1) show ?thesis
    by (simp add: pool_inv_def in_teardown_def)
qed

lemma inv_crash: "pool_inv objs p0 w0 s \<Longrightarrow> pool_inv objs p0 w0 (s\<lparr>crashed := True\<rparr>)"
  by (auto simp: pool_inv_def)

lemma list_all_update:
  "list_all P xs \<Longrightarrow> P y \<Longrightarrow> list_all P (xs[i := y])"
  by (induction xs arbitrary: i) (auto split: nat.splits)

lemma list_all_nth: "list_all P xs \<Longrightarrow> i < length xs \<Longrightarrow> P (xs ! i)"
  by (simp add: list_all_length)

lemma inv_StopStep:
  assumes I: "pool_inv objs p0 w0 s" and E: "exec (EvStopStep i) s = Some s'"
  shows "pool_inv objs p0 w0 s'"
proof -
  from E have i: "i < length (calls s)" by (auto split: if_splits)
  note upd = hands_update [OF i, symmetric] length_hands_update [OF i, symmetric]
    turns_update [OF i, symmetric] tearing_update [OF i, symmetric]
  show ?thesis
  proof (cases "calls s ! i")
    case AtSelect
    with E i have s': "s' = s\<lparr>pool := pool s, world := world s, destroyed := destroyed s @ [],
        calls := (calls s)[i := if stopping (pool s) then ReturnedEarly else AtClose]\<rparr>"
      by (auto split: if_splits)
    show ?thesis
    proof (cases "stopping (pool s)")
      case True
      with I s' AtSelect upd [of ReturnedEarly] show ?thesis
        by (auto simp: pool_inv_def)
    next
      case False
      with I s' AtSelect upd [of AtClose] show ?thesis
        by (auto simp: pool_inv_def list_all_update)
    qed
  next
    case AtClose
    show ?thesis
    proof (cases "stopping (pool s)")
      case True
      with E i AtClose have "s' = s\<lparr>crashed := True\<rparr>" by (auto split: if_splits)
      with I show ?thesis by (simp add: inv_crash)
    next
      case False
      with E i AtClose have s': "s' = s\<lparr>pool := (pool s)\<lparr>stopping := True\<rparr>, world := world s,
          destroyed := destroyed s @ [],
          calls := (calls s)[i := AtLoop (cap (idle (pool s)))]\<rparr>"
        by (auto split: if_splits)
      from I False have all: "list_all (\<lambda>pc. pc = AtSelect \<or> pc = AtClose) (calls s)"
        and d: "destroyed s = []"
        by (simp_all add: pool_inv_def)
      note z = idle_calls [OF all]
      let ?cs = "(calls s)[i := AtLoop (cap (idle (pool s)))]"
      from length_hands_update [OF i, of "AtLoop (cap (idle (pool s)))"] z AtClose
      have h: "concat (map in_hand ?cs) = []" by simp
      from turns_update [OF i, of "AtLoop (cap (idle (pool s)))"] z AtClose
      have t: "sum_list (map turns_left ?cs) = cap (idle (pool s))" by simp
      from tearing_update [OF i, of "AtLoop (cap (idle (pool s)))"] z AtClose
      have c: "length (filter tearing_down ?cs) = 1" by simp
      from I False have "cap (idle (pool s)) = length objs"
        "destroyFunc (pool s) = destroyFunc p0"
        "mset (buf (idle (pool s))) + mset (held s) = mset objs"
        "world s = w0"
        using d z by (simp_all add: pool_inv_def)
      with s' d h t c show ?thesis
        by (simp add: pool_inv_def)
    qed
  next
    case (AtLoop k)
    show ?thesis
    proof (cases k)
      case 0
      with E i AtLoop have s': "s' = s\<lparr>pool := pool s, world := world s,
          destroyed := destroyed s @ [], calls := (calls s)[i := Returned]\<rparr>"
        by (auto split: if_splits)
      have st: "stopping (pool s)"
      proof (rule ccontr)
        assume "\<not> stopping (pool s)"
        with I have "list_all (\<lambda>pc. pc = AtSelect \<or> pc = AtClose) (calls s)"
          by (auto simp: pool_inv_def)
        from list_all_nth [OF this i] AtLoop show False by simp
      qed
      with I s' AtLoop 0 upd [of Returned] show ?thesis
        by (auto simp: pool_inv_def)
    next
      case (Suc k')
      with E i AtLoop obtain object rest where b: "buf (idle (pool s)) = object # rest"
        and s': "s' = s\<lparr>pool := (pool s)\<lparr>idle := (idle (pool s))\<lparr>buf := rest\<rparr>\<rparr>,
          world := world s, destroyed := destroyed s @ [],
          calls := (calls s)[i := AtDestroy k' object]\<rparr>"
        by (auto simp: recv_def split: if_splits list.splits)
      have st: "stopping (pool s)"
      proof (rule ccontr)
        assume "\<not> stopping (pool s)"
        with I have "list_all (\<lambda>pc. pc = AtSelect \<or> pc = AtClose) (calls s)"
          by (auto simp: pool_inv_def)
        from list_all_nth [OF this i] AtLoop show False by simp
      qed
      note u = hands_update [OF i, of "AtDestroy k' object"]
        length_hands_update [OF i, of "AtDestroy k' object"]
        turns_update [OF i, of "AtDestroy k' object", symmetric]
        tearing_update [OF i, of "AtDestroy k' object"]
      from st I s' AtLoop Suc b u show ?thesis
        by (auto simp: pool_inv_def)
    qed
  next
    case (AtDestroy k object)
    with E i have s': "s' = s\<lparr>pool := pool s, world := destroy (pool s) object (world s),
        destroyed := destroyed s @ [object], calls := (calls s)[i := AtLoop k]\<rparr>"
      by (auto split: if_splits)
    have st: "stopping (pool s)"
    proof (rule ccontr)
      assume "\<not> stopping (pool s)"
      with I have "list_all (\<lambda>pc. pc = AtSelect \<or> pc = AtClose) (calls s)"
        by (auto simp: pool_inv_def)
      from list_all_nth [OF this i] AtDestroy show False by simp
    qed
    from I have "destroy (pool s) = destroy p0"
      by (intro destroy_cong) (simp add: pool_inv_def)
    with st I s' AtDestroy upd [of "AtLoop k"] show ?thesis
      by (auto simp: pool_inv_def)
  next
    case ReturnedEarly
    with E i have s': "s' = s\<lparr>pool := pool s, world := world s,
        destroyed := destroyed s @ [], calls := (calls s)[i := ReturnedEarly]\<rparr>"
      by (auto split: if_splits)
    from ReturnedEarly have "(calls s)[i := ReturnedEarly] = calls s"
      by (metis list_update_id)
    with I s' show ?thesis by (auto simp: pool_inv_def)
  next
    case Returned
    with E i have s': "s' = s\<lparr>pool := pool s, world := world s,
        destroyed := destroyed s @ [], calls := (calls s)[i := Returned]\<rparr>"
      by (auto split: if_splits)
    from Returned have "(calls s)[i := Returned] = calls s"
      by (metis list_update_id)
    with I s' show ?thesis by (auto simp: pool_inv_def)
  qed
qed

lemma inv_exec: "pool_inv objs p0 w0 s \<Longrightarrow> exec e s = Some s' \<Longrightarrow> pool_inv objs p0 w0 s'"
  by (cases e) (auto intro: inv_Get inv_Put inv_Stop inv_StopStep simp del: exec.simps)

lemma inv_run: "pool_inv objs p0 w0 s \<Longrightarrow> run es s = Some s' \<Longrightarrow> pool_inv objs p0 w0 s'"
proof (induction es arbitrary: s)
  case Nil
  then show ?case by simp
next
  case (Cons e es)
  from Cons.prems(2) obtain s1 where e: "exec e s = Some s1" and r: "run es s1 = Some s'"
    by (auto split: option.splits)
  from inv_exec [OF Cons.prems(1) e] r show ?case by (rule Cons.IH)
qed

section \<open>What the invariant gives\<close>

lemma not_tearing: "\<not> tearing_down pc \<Longrightarrow> turns_left pc = 0 \<and> in_hand pc = []"
  by (cases pc) simp_all

lemma only_call:
  assumes one: "length (filter tearing_down xs) = 1" and i: "i < length xs"
    and t: "tearing_down (xs ! i)"
  shows "sum_list (map turns_left xs) = turns_left (xs ! i)"
    and "concat (map in_hand xs) = in_hand (xs ! i)"
proof -
  let ?ys = "xs[i := AtSelect]"
  from tearing_update [OF i, of AtSelect] one t
  have "filter tearing_down ?ys = []" by simp
  then have none: "\<forall>pc\<in>set ?ys. \<not> tearing_down pc"
    by (simp add: filter_empty_conv)
  then have "\<forall>pc\<in>set ?ys. turns_left pc = 0" and h: "\<forall>pc\<in>set ?ys. in_hand pc = []"
    by (auto dest: not_tearing)
  then have "sum_list (map turns_left ?ys) = 0" and h0: "concat (map in_hand ?ys) = []"
    by simp_all
  with turns_update [OF i, of AtSelect] show "sum_list (map turns_left xs) = turns_left (xs ! i)"
    by simp
  from hands_update [OF i, of AtSelect] h0
  have m: "mset (concat (map in_hand xs)) = mset (in_hand (xs ! i))" by simp
  show "concat (map in_hand xs) = in_hand (xs ! i)"
  proof (cases "xs ! i")
    case (AtDestroy k object)
    with m show ?thesis by simp
  qed (use m in simp_all)
qed

lemma stopping_of_tearing:
  assumes "pool_inv objs p0 w0 s" and "i < length (calls s)" and "tearing_down (calls s ! i)"
  shows "stopping (pool s)"
proof (rule ccontr)
  assume "\<not> stopping (pool s)"
  with assms(1) have "list_all (\<lambda>pc. pc = AtSelect \<or> pc = AtClose) (calls s)"
    by (simp add: pool_inv_def)
  from list_all_nth [OF this assms(2)] assms(3) show False by auto
qed

lemma inv_tearing:
  assumes I: "pool_inv objs p0 w0 s" and i: "i < length (calls s)" and t: "tearing_down (calls s ! i)"
  shows "turns_left (calls s ! i) + length (in_hand (calls s ! i)) + length (destroyed s)
           = length objs"
    and "in_teardown s = in_hand (calls s ! i)"
    and "length (buf (idle (pool s))) + length (held s) = turns_left (calls s ! i)"
proof -
  from stopping_of_tearing [OF assms] have st: "stopping (pool s)" .
  with I have one: "length (filter tearing_down (calls s)) = 1"
    and sum: "sum_list (map turns_left (calls s)) + length (concat (map in_hand (calls s)))
           + length (destroyed s) = length objs"
    and m: "mset (buf (idle (pool s))) + mset (held s) + mset (concat (map in_hand (calls s)))
        + mset (destroyed s) = mset objs"
    by (simp_all add: pool_inv_def)
  note oc = only_call [OF one i t]
  from sum oc show a: "turns_left (calls s ! i) + length (in_hand (calls s ! i)) + length (destroyed s)
           = length objs" by simp
  from oc show "in_teardown s = in_hand (calls s ! i)" by (simp add: in_teardown_def)
  from m have "size (mset (buf (idle (pool s))) + mset (held s) + mset (concat (map in_hand (calls s)))
        + mset (destroyed s)) = size (mset objs)" by simp
  with oc a show "length (buf (idle (pool s))) + length (held s) = turns_left (calls s ! i)"
    by simp
qed

lemma inv_counts:
  assumes I: "pool_inv objs p0 w0 s"
  shows "length (buf (idle (pool s))) + length (held s) + length (in_teardown s)
           + length (destroyed s) = length objs"
proof -
  from I have "size (mset (buf (idle (pool s))) + mset (held s) + mset (concat (map in_hand (calls s)))
        + mset (destroyed s)) = size (mset objs)" by (simp add: pool_inv_def)
  then show ?thesis by (simp add: in_teardown_def)
qed

lemma inv_not_stopping:
  assumes I: "pool_inv objs p0 w0 s" and "\<not> stopping (pool s)"
  shows "in_teardown s = []" and "destroyed s = []"
proof -
  from assms have all: "list_all (\<lambda>pc. pc = AtSelect \<or> pc = AtClose) (calls s)"
    and d: "destroyed s = []" by (simp_all add: pool_inv_def)
  from idle_calls(1) [OF all] show "in_teardown s = []" by (simp add: in_teardown_def)
  from d show "destroyed s = []" .
qed

lemma inv_stopping_call:
  assumes I: "pool_inv objs p0 w0 s" and st: "stopping (pool s)"
  shows "\<exists>i. i < length (calls s) \<and> tearing_down (calls s ! i)"
proof -
  from I st have "length (filter tearing_down (calls s)) = 1" by (simp add: pool_inv_def)
  then have "filter tearing_down (calls s) \<noteq> []" by auto
  then obtain pc where "pc \<in> set (calls s)" "tearing_down pc"
    by (auto simp: filter_empty_conv)
  then show ?thesis by (auto simp: in_set_conv_nth)
qed

section \<open>Stop running on its own\<close>

text \<open>
  From the head of its loop, with at least as many turns left as objects are queued, a
  call of \<open>Stop\<close> that runs alone takes two steps for each queued object (receive,
  destroy) and so empties the queue, oldest object first.
\<close>

lemma drain:
  assumes "\<not> crashed s" and "i < length (calls s)" and "calls s ! i = AtLoop k"
    and "length (buf (idle (pool s))) \<le> k"
  shows "run (replicate (2 * length (buf (idle (pool s)))) (EvStopStep i)) s =
           Some (s\<lparr>pool := (pool s)\<lparr>idle := (idle (pool s))\<lparr>buf := []\<rparr>\<rparr>,
                   world := fold (destroy (pool s)) (buf (idle (pool s))) (world s),
                   destroyed := destroyed s @ buf (idle (pool s)),
                   calls := (calls s)[i := AtLoop (k - length (buf (idle (pool s))))]\<rparr>)"
  using assms
proof (induction "buf (idle (pool s))" arbitrary: s k)
  case Nil
  from Nil.prems have c: "(calls s)[i := AtLoop k] = calls s"
    by (metis list_update_id)
  from Nil.hyps have "(idle (pool s))\<lparr>buf := []\<rparr> = idle (pool s)"
    by (cases "idle (pool s)") simp
  then have "s\<lparr>pool := (pool s)\<lparr>idle := (idle (pool s))\<lparr>buf := []\<rparr>\<rparr>\<rparr> = s"
    by simp
  with Nil.hyps [symmetric] c show ?case
    by simp
next
  case (Cons x q)
  from Cons.prems Cons.hyps(2) [symmetric] obtain k' where k: "k = Suc k'"
    by (cases k) auto
  let ?s1 = "s\<lparr>pool := (pool s)\<lparr>idle := (idle (pool s))\<lparr>buf := q\<rparr>\<rparr>, world := world s,
      destroyed := destroyed s @ [], calls := (calls s)[i := AtDestroy k' x]\<rparr>"
  let ?s2 = "s\<lparr>pool := (pool s)\<lparr>idle := (idle (pool s))\<lparr>buf := q\<rparr>\<rparr>,
      world := destroy (pool s) x (world s),
      destroyed := destroyed s @ [x], calls := (calls s)[i := AtLoop k']\<rparr>"
  have e1: "exec (EvStopStep i) s = Some ?s1"
    using Cons.prems Cons.hyps(2) [symmetric] k by (simp add: recv_def)
  have e2: "exec (EvStopStep i) ?s1 = Some ?s2"
    using Cons.prems by simp
  have "run (replicate (2 * length (buf (idle (pool ?s2)))) (EvStopStep i)) ?s2 =
           Some (?s2\<lparr>pool := (pool ?s2)\<lparr>idle := (idle (pool ?s2))\<lparr>buf := []\<rparr>\<rparr>,
                   world := fold (destroy (pool ?s2)) (buf (idle (pool ?s2))) (world ?s2),
                   destroyed := destroyed ?s2 @ buf (idle (pool ?s2)),
                   calls := (calls ?s2)[i := AtLoop (k' - length (buf (idle (pool ?s2))))]\<rparr>)"
    using Cons.prems Cons.hyps(2) [symmetric] k by (intro Cons.hyps(1)) simp_all
  with e1 e2 Cons.hyps(2) [symmetric] k show ?case
    by simp
qed

lemma Stop_loop_drains:
  "k \<le> len (idle p) \<Longrightarrow>
     Stop_loop k p w =
       Returns (p\<lparr>idle := (idle p)\<lparr>buf := drop k (buf (idle p))\<rparr>\<rparr>,
                fold (destroy p) (take k (buf (idle p))) w)"
proof (induction k arbitrary: p w)
  case 0
  then show ?case by simp
next
  case (Suc k)
  then obtain x rest where b: "buf (idle p) = x # rest"
    by (cases "buf (idle p)") (auto simp: len_def)
  with Suc.prems have "k \<le> len (idle (p\<lparr>idle := (idle p)\<lparr>buf := rest\<rparr>\<rparr>))"
    by (simp add: len_def)
  from Suc.IH [OF this] b show ?case
    by (simp add: recv_def)
qed

lemma Stop_loop_waits: "len (idle p) < k \<Longrightarrow> Stop_loop k p w = Blocks"
proof (induction k arbitrary: p w)
  case 0
  then show ?case by simp
next
  case (Suc k)
  show ?case
  proof (cases "buf (idle p)")
    case Nil
    then show ?thesis by (simp add: recv_def)
  next
    case (Cons x rest)
    with Suc.prems have "len (idle (p\<lparr>idle := (idle p)\<lparr>buf := rest\<rparr>\<rparr>)) < k"
      by (simp add: len_def)
    from Suc.IH [OF this] Cons show ?thesis
      by (simp add: recv_def)
  qed
qed



text \<open>
  The whole call and its steps agree: when the whole call returns, the steps of the call,
  run with nothing in between, end in the same pool and world.
\<close>

lemma run_append:
  "run (es @ fs) s = (case run es s of None \<Rightarrow> None | Some s' \<Rightarrow> run fs s')"
  by (induction es arbitrary: s) (auto split: option.splits)

lemma loop_steps:
  assumes "\<not> crashed s" and "i < length (calls s)" and "calls s ! i = AtLoop k"
    and "Stop_loop k (pool s) (world s) = Returns (p', w')"
  shows "\<exists>s'. run (replicate (2 * k) (EvStopStep i)) s = Some s' \<and> pool s' = p' \<and>
            world s' = w' \<and> calls s' = (calls s)[i := AtLoop 0] \<and> held s' = held s \<and>
            \<not> crashed s'"
  using assms
proof (induction k arbitrary: s)
  case 0
  then have "(calls s)[i := AtLoop 0] = calls s" by (metis list_update_id)
  with 0 show ?case by simp
next
  case (Suc k)
  from Suc.prems(4) obtain x rest where b: "buf (idle (pool s)) = x # rest"
    by (cases "buf (idle (pool s))") (auto simp: recv_def)
  let ?s2 = "s\<lparr>pool := (pool s)\<lparr>idle := (idle (pool s))\<lparr>buf := rest\<rparr>\<rparr>,
      world := destroy (pool s) x (world s),
      destroyed := destroyed s @ [x], calls := (calls s)[i := AtLoop k]\<rparr>"
  have e: "run [EvStopStep i, EvStopStep i] s = Some ?s2"
    using Suc.prems(1-3) b by (simp add: recv_def)
  have "\<exists>s'. run (replicate (2 * k) (EvStopStep i)) ?s2 = Some s' \<and> pool s' = p' \<and>
            world s' = w' \<and> calls s' = (calls ?s2)[i := AtLoop 0] \<and> held s' = held ?s2 \<and>
            \<not> crashed s'"
    using Suc.prems b by (intro Suc.IH) (simp_all add: recv_def)
  then obtain s' where r: "run (replicate (2 * k) (EvStopStep i)) ?s2 = Some s'"
    and f: "pool s' = p'" "world s' = w'" "calls s' = (calls s)[i := AtLoop 0]"
      "held s' = held s" "\<not> crashed s'"
    by auto
  have rep: "replicate (2 * Suc k) (EvStopStep i)
      = [EvStopStep i, EvStopStep i] @ replicate (2 * k) (EvStopStep i)"
    by simp
  have "run ([EvStopStep i, EvStopStep i] @ replicate (2 * k) (EvStopStep i)) s = Some s'"
    by (simp only: run_append e r option.case)
  then have "run (replicate (2 * Suc k) (EvStopStep i)) s = Some s'"
    by (simp only: rep)
  with f show ?case by (intro exI [of _ s']) simp
qed

lemma Stop_by_steps:
  assumes "\<not> crashed s" and "i < length (calls s)" and "calls s ! i = AtSelect"
    and "Stop (pool s) (world s) = Returns (p', w')"
  shows "\<exists>n s'. run (replicate n (EvStopStep i)) s = Some s' \<and> pool s' = p' \<and> world s' = w' \<and>
           held s' = held s \<and>
           calls s' = (calls s)[i := if stopping (pool s) then ReturnedEarly else Returned]"
proof (cases "stopping (pool s)")
  case True
  with assms have "run (replicate 1 (EvStopStep i)) s = Some (s\<lparr>calls := (calls s)[i := ReturnedEarly]\<rparr>)"
    by simp
  moreover from True assms(4) have "p' = pool s" "w' = world s" by (simp_all add: Stop_def)
  ultimately show ?thesis using True
    by (intro exI [of _ 1] exI [of _ "s\<lparr>calls := (calls s)[i := ReturnedEarly]\<rparr>"]) simp
next
  case False
  let ?n = "cap (idle (pool s))"
  let ?s2 = "s\<lparr>pool := (pool s)\<lparr>stopping := True\<rparr>, calls := (calls s)[i := AtLoop ?n]\<rparr>"
  from False assms have e: "run [EvStopStep i, EvStopStep i] s = Some ?s2" by simp
  from False assms(4) have L: "Stop_loop ?n (pool ?s2) (world ?s2) = Returns (p', w')"
    by (simp add: Stop_def)
  have "\<exists>s'. run (replicate (2 * ?n) (EvStopStep i)) ?s2 = Some s' \<and> pool s' = p' \<and>
            world s' = w' \<and> calls s' = (calls ?s2)[i := AtLoop 0] \<and> held s' = held ?s2 \<and>
            \<not> crashed s'"
    using assms(1,2) L by (intro loop_steps) simp_all
  then obtain s3 where r: "run (replicate (2 * ?n) (EvStopStep i)) ?s2 = Some s3"
    and f: "pool s3 = p'" "world s3 = w'" "calls s3 = (calls s)[i := AtLoop 0]"
      "held s3 = held s" "\<not> crashed s3"
    by auto
  let ?s4 = "s3\<lparr>calls := (calls s)[i := Returned]\<rparr>"
  from f assms(2) have l: "run [EvStopStep i] s3 = Some ?s4" by simp
  have rep: "replicate (2 + 2 * ?n + 1) (EvStopStep i)
      = [EvStopStep i, EvStopStep i] @ replicate (2 * ?n) (EvStopStep i) @ [EvStopStep i]"
    by (simp add: replicate_add replicate_append_same)
  have "run ([EvStopStep i, EvStopStep i] @ replicate (2 * ?n) (EvStopStep i) @ [EvStopStep i]) s
      = Some ?s4"
    by (simp only: run_append e r l option.case)
  then have "run (replicate (2 + 2 * ?n + 1) (EvStopStep i)) s = Some ?s4"
    by (simp only: rep)
  with f False show ?thesis
    by (intro exI [of _ "2 + 2 * ?n + 1"] exI [of _ ?s4]) simp
qed

section \<open>Get, Put and a pool fresh from New\<close>

lemma Get_object:
  assumes "Get p c k = Some ((x, None), p')"
  shows "buf (idle p) = x # buf (idle p')" and "p' = p\<lparr>idle := (idle p)\<lparr>buf := tl (buf (idle p))\<rparr>\<rparr>"
  using assms
  by (cases k; auto simp: recv_def Done_def split: list.splits option.splits if_splits)+

lemma Put_appends:
  assumes "Put p x = Some p'"
  shows "buf (idle p') = buf (idle p) @ [x]"
  using assms by (auto simp: Put_def send_def split: if_splits)

lemma New_success:
  assumes "New config w0 = Returns ((Some p0, None), w1)"
  shows "w1 = w0" and "cap (idle p0) = nat (Count config)"
    and "length (buf (idle p0)) = nat (Count config)"
    and "\<not> stopping p0" and "destroyFunc p0 = DestroyFunc config"
    and "\<exists>f. NewFunc config = Some f \<and>
           buf (idle p0) = map (\<lambda>j. fst (f j)) [0..<nat (Count config)]"
  using New_cases [of config w0] assms by auto

lemma reach_inv:
  assumes "New config w0 = Returns ((Some p0, None), w1)" and "run evs (start p0 w1) = Some s"
  shows "pool_inv (buf (idle p0)) p0 w1 s"
proof -
  from New_success(2,3,4) [OF assms(1)] have "pool_inv (buf (idle p0)) p0 w1 (start p0 w1)"
    by (intro inv_start) simp_all
  from inv_run [OF this assms(2)] show ?thesis .
qed

section \<open>Stop finishing what is queued\<close>

lemma drain_from_loop:
  assumes "\<not> crashed s" and "i < length (calls s)" and "calls s ! i = AtLoop k"
    and "length (buf (idle (pool s))) \<le> k"
  shows "\<exists>s''. run (replicate (2 * length (buf (idle (pool s)))) (EvStopStep i)) s = Some s'' \<and>
           buf (idle (pool s'')) = [] \<and> held s'' = held s \<and>
           destroyed s'' = destroyed s @ buf (idle (pool s))"
  using drain [OF assms] by simp

lemma drain_from_destroy:
  assumes "\<not> crashed s" and "i < length (calls s)" and "calls s ! i = AtDestroy k x"
    and "length (buf (idle (pool s))) \<le> k"
  shows "\<exists>s''. run (replicate (Suc (2 * length (buf (idle (pool s))))) (EvStopStep i)) s = Some s'' \<and>
           buf (idle (pool s'')) = [] \<and> held s'' = held s \<and>
           destroyed s'' = destroyed s @ [x] @ buf (idle (pool s))"
proof -
  let ?s1 = "s\<lparr>pool := pool s, world := destroy (pool s) x (world s),
                 destroyed := destroyed s @ [x], calls := (calls s)[i := AtLoop k]\<rparr>"
  from assms have e1: "exec (EvStopStep i) s = Some ?s1" by simp
  have "\<exists>s''. run (replicate (2 * length (buf (idle (pool ?s1)))) (EvStopStep i)) ?s1 = Some s'' \<and>
           buf (idle (pool s'')) = [] \<and> held s'' = held ?s1 \<and>
           destroyed s'' = destroyed ?s1 @ buf (idle (pool ?s1))"
    using assms by (intro drain_from_loop [where k = k]) simp_all
  then obtain s'' where "run (replicate (2 * length (buf (idle (pool s)))) (EvStopStep i)) ?s1 = Some s''"
    and "buf (idle (pool s'')) = []" and "held s'' = held s"
    and "destroyed s'' = destroyed s @ [x] @ buf (idle (pool s))"
    by auto
  with e1 show ?thesis
    by (intro exI [of _ s'']) (simp del: exec.simps)
qed

section \<open>The example run\<close>

lemma New_config2: "New config2 [] = Returns ((Some (pool_of [10, 11] 2 False), None), [])"
  by (simp add: config2_def pool_of_def New_def Check_def make_chan_def send_def len_def
      numbered_def eval_nat_numeral)

lemma run_get_stop_put: "run get_stop_put (start (pool_of [10, 11] 2 False) []) = Some stopped2"
  by (simp add: get_stop_put_def stopped2_def pool_of_def start_def Put_def send_def recv_def
      len_def destroy_def spy_def eval_nat_numeral)

lemma run_to_draining2:
  "run (take 4 get_stop_put) (start (pool_of [10, 11] 2 False) []) = Some draining2"
  by (simp add: get_stop_put_def draining2_def pool_of_def start_def Put_def send_def recv_def
      len_def destroy_def spy_def eval_nat_numeral)

lemma run_to_waiting2:
  "run (take 6 get_stop_put) (start (pool_of [10, 11] 2 False) []) = Some waiting2"
  by (simp add: get_stop_put_def waiting2_def pool_of_def start_def Put_def send_def recv_def
      len_def destroy_def spy_def eval_nat_numeral)

text \<open>
  The \<open>select\<close> of \<open>Stop\<close> and the \<open>close\<close> in its \<open>default\<close> branch are two steps.
  Two calls that both execute the \<open>select\<close> while \<open>p.stopping\<close> is open both go on to
  the \<open>close\<close>, and the second \<open>close\<close> panics.
\<close>

lemma Stop_race:
  "run [EvStop, EvStop, EvStopStep 0, EvStopStep 1, EvStopStep 0, EvStopStep 1]
       (start (pool_of [10, 11] 2 False) []) =
     Some \<lparr>pool = pool_of [10, 11] 2 True, world = [], held = [], destroyed = [],
           calls = [AtLoop 2, AtClose], crashed = True\<rparr>"
  by (simp add: pool_of_def start_def)

section \<open>Claims about New\<close>

lemma errors_Is_refl: "errors_Is e e"
  by (cases e) simp_all

text \<open>
  Claim C10. For every configuration and every world, \<open>New\<close> returns (it neither waits
  for ever nor panics), and what it returns has one of two shapes: a pool together with
  a nil error, or a nil pool together with an error. It never returns a pool alongside
  an error, nor a nil pool with a nil error.
\<close>

theorem New_result_shape:
  "\<exists>po eo w'. New config w = Returns ((po, eo), w') \<and>
     ((\<exists>p. po = Some p) \<and> eo = None \<or> po = None \<and> (\<exists>e. eo = Some e))"
  using New_cases [of config w] by (elim disjE exE conjE) simp_all

theorem New_result_shape_witness:
  "\<exists>po eo w'.
     New \<lparr>Count = 3, NewFunc = Some fails_third, DestroyFunc = Some spy\<rparr> [] = Returns ((po, eo), w') \<and>
     ((\<exists>p. po = Some p) \<and> eo = None \<or> po = None \<and> (\<exists>e. eo = Some e))"
  using New_result_shape [of "\<lparr>Count = 3, NewFunc = Some fails_third, DestroyFunc = Some spy\<rparr>" "[]"]
  by simp

text \<open>
  Claim C3, as amended. When the configuration is valid with capacity \<open>n\<close> and the
  constructor first fails on its \<open>k\<close>-th call (\<open>1 \<le> k \<le> n\<close>) with the error \<open>e\<close>,
  \<open>New\<close> returns a nil pool and an error, and the world it leaves is the one obtained by
  passing the \<open>k - 1\<close> objects constructed before, each once and in the order of their
  construction, to the destructor if there is one; the roll-back loop leaves the queue of
  the abandoned pool empty. The error wraps \<open>ErrNew\<close> (its
  \<open>Unwrap\<close> is \<open>ErrNew\<close>, so \<open>errors.Is(err, ErrNew)\<close> holds) and its message is the
  message of \<open>ErrNew\<close>, a colon, a space and the message of \<open>e\<close>: the text of the
  constructor's error is embedded, the error itself is not wrapped.
\<close>

theorem New_constructor_failure:
  fixes config :: "('a, 'w) Config"
  assumes "Count config = int n" and "NewFunc config = Some f"
    and "1 \<le> k" and "k \<le> n"
    and "\<forall>j. j < k - 1 \<longrightarrow> snd (f j) = None" and "snd (f (k - 1)) = Some e"
  shows "New config w =
           Returns ((None, Some (wrapError (Error ErrNew @ '': '' @ Error e) ErrNew)),
                    case DestroyFunc config of
                      None \<Rightarrow> w
                    | Some d \<Rightarrow> fold d (map (\<lambda>j. fst (f j)) [0..<k - 1]) w)
         \<and> errors_Is (wrapError (Error ErrNew @ '': '' @ Error e) ErrNew) ErrNew
         \<and> Unwrap (wrapError (Error ErrNew @ '': '' @ Error e) ErrNew) = Some ErrNew
         \<and> (\<forall>(p :: ('a, 'w) Pool) w.
               New_rollback (len (idle p)) p w =
                 Returns (p\<lparr>idle := (idle p)\<lparr>buf := []\<rparr>\<rparr>, fold (destroy p) (buf (idle p)) w))"
proof -
  let ?p = "\<lparr>newFunc = NewFunc config, destroyFunc = DestroyFunc config,
             idle = make_chan n, stopping = False\<rparr>"
  have c: "Check config = None" using assms(1,2) by (simp add: Check_def)
  have n: "New config w = New_loop n 0 ?p w"
    using c assms(1) by (simp add: New_def make_chan_def)
  have pf: "newFunc ?p = Some f" using assms(2) by simp
  have room: "len (idle ?p) + n \<le> cap (idle ?p)" by (simp add: len_def make_chan_def)
  have fold_d: "fold (destroy ?p) xs w =
      (case DestroyFunc config of None \<Rightarrow> w | Some d \<Rightarrow> fold d xs w)" for xs
    by (induction xs arbitrary: w) (auto simp: destroy_def split: option.splits)
  have L: "New_loop n 0 ?p w =
      Returns ((None, Some (Errorf_w_v ErrNew e)),
               fold (destroy ?p) (buf (idle ?p) @ map (\<lambda>j. fst (f j)) [0..<k - 1]) w)"
    using assms(3-6) by (intro New_loop_fails [OF pf room]) auto
  have b: "buf (idle ?p) = []" by (simp add: make_chan_def)
  have "New config w =
           Returns ((None, Some (wrapError (Error ErrNew @ '': '' @ Error e) ErrNew)),
                    case DestroyFunc config of
                      None \<Rightarrow> w
                    | Some d \<Rightarrow> fold d (map (\<lambda>j. fst (f j)) [0..<k - 1]) w)"
    by (simp only: n L b fold_d append_Nil Errorf_w_v_def)
  moreover have "errors_Is (wrapError (Error ErrNew @ '': '' @ Error e) ErrNew) ErrNew"
    by (simp add: errors_Is_refl)
  moreover have "\<forall>(p :: ('a, 'w) Pool) w.
      New_rollback (len (idle p)) p w =
        Returns (p\<lparr>idle := (idle p)\<lparr>buf := []\<rparr>\<rparr>, fold (destroy p) (buf (idle p)) w)"
    by (simp add: New_rollback_drains len_def)
  ultimately show ?thesis by simp
qed

theorem New_constructor_failure_witness:
  "New \<lparr>Count = 3, NewFunc = Some fails_third, DestroyFunc = Some spy\<rparr> [] =
     Returns ((None, Some (wrapError ''failed to make new pool object: boom'' ErrNew)), [10, 11])"
  using New_constructor_failure [of "\<lparr>Count = 3, NewFunc = Some fails_third, DestroyFunc = Some spy\<rparr>"
      3 fails_third 3 "errorString ''boom''" "[]"]
  by (simp add: fails_third_def spy_def ErrNew_def eval_nat_numeral)

text \<open>
  The claim as stated fails where it says that the returned error wraps the
  constructor's error: with a constructor whose third call fails with the error
  \<open>boom\<close>, the error \<open>New\<close> returns has \<open>ErrNew\<close> on its \<open>Unwrap\<close> chain and not
  \<open>boom\<close>, so \<open>errors.Is(err, boom)\<close> is false.
\<close>

theorem New_wraps_cause_counterexample:
  "New \<lparr>Count = 3, NewFunc = Some fails_third, DestroyFunc = Some spy\<rparr> [] =
     Returns ((None, Some (wrapError ''failed to make new pool object: boom'' ErrNew)), [10, 11])
   \<and> \<not> errors_Is (wrapError ''failed to make new pool object: boom'' ErrNew) (errorString ''boom'')"
  by (simp add: New_def Check_def make_chan_def send_def recv_def len_def fails_third_def spy_def
      destroy_def Errorf_w_v_def ErrNew_def eval_nat_numeral)

section \<open>Claims about Get and Put\<close>

text \<open>
  Claim C4, as amended. A \<open>Get\<close> whose context is already done never waits: the case
  of \<open>ctx.Done()\<close> can proceed, and when the \<open>select\<close> picks it the call returns the zero
  value with \<open>ctx.Err()\<close> and leaves the pool as it was. Whenever \<open>Get\<close> returns an error
  it returns the zero value and removes nothing from the idle queue. When the idle queue
  is empty and \<open>p.stopping\<close> is open, the cancellation error is the only outcome. (With an
  idle object available the \<open>select\<close> may pick the receive instead, and with \<open>p.stopping\<close>
  closed it may return \<open>ErrStoppingOrStopped\<close>.)
\<close>

theorem Get_cancelled:
  assumes "Err c = Some e"
  shows "Get p c RecvDone = Some ((0, Some e), p)
       \<and> (\<forall>k object e' p'. Get p c k = Some ((object, Some e'), p') \<longrightarrow> object = 0 \<and> p' = p)
       \<and> (buf (idle p) = [] \<and> \<not> stopping p \<longrightarrow>
            (\<forall>k r. Get p c k = Some r \<longrightarrow> r = ((0, Some e), p)))"
proof (intro conjI allI impI)
  show "Get p c RecvDone = Some ((0, Some e), p)"
    using assms by (simp add: Done_def)
next
  fix k object e' p'
  assume "Get p c k = Some ((object, Some e'), p')"
  from Get_cases [OF this] show "object = 0" and "p' = p" by auto
next
  fix k r
  assume "buf (idle p) = [] \<and> \<not> stopping p" and "Get p c k = Some r"
  with assms show "r = ((0, Some e), p)"
    by (cases k) (auto simp: recv_def Done_def split: if_splits)
qed

theorem Get_cancelled_witness:
  "Get \<lparr>newFunc = Some numbered, destroyFunc = None, idle = \<lparr>buf = [], cap = 1\<rparr>, stopping = False\<rparr>
       (Ctx (Some Canceled)) RecvDone =
     Some ((0, Some Canceled),
           \<lparr>newFunc = Some numbered, destroyFunc = None, idle = \<lparr>buf = [], cap = 1\<rparr>, stopping = False\<rparr>)
   \<and> Get_ready \<lparr>newFunc = Some numbered, destroyFunc = None, idle = \<lparr>buf = [], cap = 1\<rparr>, stopping = False\<rparr>
       (Ctx (Some Canceled)) = [RecvDone]"
  using Get_cancelled [of "Ctx (Some Canceled)" Canceled
      "\<lparr>newFunc = Some numbered, destroyFunc = None, idle = \<lparr>buf = [], cap = 1\<rparr>, stopping = False\<rparr>"]
  by (simp add: Get_ready_def recv_def Done_def)

text \<open>
  The claim as stated fails when an idle object is available: the receive from
  \<open>p.idle\<close> can proceed as well, and a \<open>select\<close> that picks it hands out object 10 with
  a nil error and removes it from the queue, although the context is cancelled.
\<close>

theorem Get_cancelled_takes_idle_counterexample:
  "New \<lparr>Count = 1, NewFunc = Some numbered, DestroyFunc = Some spy\<rparr> [] =
     Returns ((Some \<lparr>newFunc = Some numbered, destroyFunc = Some spy,
                     idle = \<lparr>buf = [10], cap = 1\<rparr>, stopping = False\<rparr>, None), [])
   \<and> Get \<lparr>newFunc = Some numbered, destroyFunc = Some spy,
           idle = \<lparr>buf = [10], cap = 1\<rparr>, stopping = False\<rparr>
         (Ctx (Some Canceled)) RecvIdle =
       Some ((10, None),
             \<lparr>newFunc = Some numbered, destroyFunc = Some spy,
              idle = \<lparr>buf = [], cap = 1\<rparr>, stopping = False\<rparr>)"
  by (simp add: New_def Check_def make_chan_def send_def recv_def len_def numbered_def)

text \<open>
  Claim C5. \<open>Put\<close> appends at the tail of the idle queue and a \<open>Get\<close> that returns an
  object takes it from the head, so three \<open>Get\<close>s that return objects return the three
  objects that have been idle longest, oldest first. In particular, when \<open>A\<close>, \<open>B\<close>, \<open>C\<close>
  were returned in that order by \<open>Put\<close> to a pool whose idle queue was empty, or were
  placed in that order by \<open>New\<close>, the next three successful \<open>Get\<close>s return \<open>A\<close>, then
  \<open>B\<close>, then \<open>C\<close>.
\<close>

theorem FIFO_idle:
  assumes "Get p c1 k1 = Some ((x1, None), p4)"
    and "Get p4 c2 k2 = Some ((x2, None), p5)"
    and "Get p5 c3 k3 = Some ((x3, None), p6)"
  shows "buf (idle p) = x1 # x2 # x3 # buf (idle p6)
       \<and> (\<forall>p0 p1 p2 A B C.
            buf (idle p0) = [] \<and> Put p0 A = Some p1 \<and> Put p1 B = Some p2 \<and> Put p2 C = Some p
            \<longrightarrow> x1 = A \<and> x2 = B \<and> x3 = C)
       \<and> (\<forall>config w w' f.
            New config w = Returns ((Some p, None), w') \<and> NewFunc config = Some f
            \<longrightarrow> x1 = fst (f 0) \<and> x2 = fst (f 1) \<and> x3 = fst (f 2))"
proof (intro conjI allI impI)
  from Get_object(1) [OF assms(1)] Get_object(1) [OF assms(2)] Get_object(1) [OF assms(3)]
  show q: "buf (idle p) = x1 # x2 # x3 # buf (idle p6)" by simp
  {
    fix p0 p1 p2 A B C
    assume a: "buf (idle p0) = [] \<and> Put p0 A = Some p1 \<and> Put p1 B = Some p2 \<and> Put p2 C = Some p"
    then have "buf (idle p1) = [A]" by (auto dest: Put_appends)
    with a have "buf (idle p2) = [A, B]" by (auto dest: Put_appends)
    with a have "buf (idle p) = [A, B, C]" by (auto dest: Put_appends)
    with q show "x1 = A" and "x2 = B" and "x3 = C" by simp_all
  next
    fix config :: "('a, 'b) Config" and w w' :: 'b and f
    assume a: "New config w = Returns ((Some p, None), w') \<and> NewFunc config = Some f"
    define n where "n = nat (Count config)"
    from New_success(6) [of config w p w'] a
    have m: "map (\<lambda>j. fst (f j)) [0..<n] = x1 # x2 # x3 # buf (idle p6)"
      using q by (auto simp: n_def)
    then have "length (map (\<lambda>j. fst (f j)) [0..<n]) = length (x1 # x2 # x3 # buf (idle p6))"
      by simp
    then have n: "0 < n" "Suc 0 < n" "Suc (Suc 0) < n" by simp_all
    then have "(map (\<lambda>j. fst (f j)) [0..<n]) ! 0 = fst (f 0)"
      "(map (\<lambda>j. fst (f j)) [0..<n]) ! Suc 0 = fst (f 1)"
      "(map (\<lambda>j. fst (f j)) [0..<n]) ! Suc (Suc 0) = fst (f 2)"
      by (simp_all add: numeral_2_eq_2)
    with m show "x1 = fst (f 0)" and "x2 = fst (f 1)" and "x3 = fst (f 2)" by simp_all
  }
qed

theorem FIFO_idle_witness:
  "Put (pool_of [] 3 False) 11 = Some (pool_of [11] 3 False)
   \<and> Put (pool_of [11] 3 False) 12 = Some (pool_of [11, 12] 3 False)
   \<and> Put (pool_of [11, 12] 3 False) 10 = Some (pool_of [11, 12, 10] 3 False)
   \<and> Get (pool_of [11, 12, 10] 3 False) (Ctx None) RecvIdle = Some ((11, None), pool_of [12, 10] 3 False)
   \<and> Get (pool_of [12, 10] 3 False) (Ctx None) RecvIdle = Some ((12, None), pool_of [10] 3 False)
   \<and> Get (pool_of [10] 3 False) (Ctx None) RecvIdle = Some ((10, None), pool_of [] 3 False)
   \<and> buf (idle (pool_of [11, 12, 10] 3 False)) = 11 # 12 # 10 # buf (idle (pool_of [] 3 False))"
proof -
  have g1: "Get (pool_of [11, 12, 10] 3 False) (Ctx None) RecvIdle
      = Some ((11, None), pool_of [12, 10] 3 False)"
    and g2: "Get (pool_of [12, 10] 3 False) (Ctx None) RecvIdle
      = Some ((12, None), pool_of [10] 3 False)"
    and g3: "Get (pool_of [10] 3 False) (Ctx None) RecvIdle
      = Some ((10, None), pool_of [] 3 False)"
    by (simp_all add: pool_of_def recv_def)
  have puts: "Put (pool_of [] 3 False) 11 = Some (pool_of [11] 3 False)"
    "Put (pool_of [11] 3 False) 12 = Some (pool_of [11, 12] 3 False)"
    "Put (pool_of [11, 12] 3 False) 10 = Some (pool_of [11, 12, 10] 3 False)"
    by (simp_all add: pool_of_def Put_def send_def len_def)
  from FIFO_idle [OF g1 g2 g3]
  have "buf (idle (pool_of [11, 12, 10] 3 False)) = 11 # 12 # 10 # buf (idle (pool_of [] 3 False))"
    by blast
  with g1 g2 g3 puts show ?thesis by simp
qed

section \<open>Claims about the shared pool\<close>

text \<open>
  Claim C1, as amended. For a pool that \<open>New\<close> returned with capacity \<open>n\<close>, after every
  sequence of events of \<open>Get\<close>, \<open>Put\<close> and \<open>Stop\<close> under correct use, every object
  \<open>New\<close> placed in the pool is in exactly one place: idle, held by a caller, received by
  \<open>Stop\<close> and about to be destroyed, or destroyed. So the four counts add up to \<open>n\<close>; as
  long as \<open>p.stopping\<close> is open, idle plus held is \<open>n\<close>; no object is duplicated, lost or
  destroyed twice; and the world is the one obtained by destroying the destroyed objects
  in order.
\<close>

theorem Pool_accounting:
  assumes "New config w0 = Returns ((Some p0, None), w1)" and "run evs (start p0 w1) = Some s"
  shows "mset (buf (idle (pool s))) + mset (held s) + mset (in_teardown s) + mset (destroyed s)
           = mset (buf (idle p0))
       \<and> len (idle (pool s)) + length (held s) + length (in_teardown s) + length (destroyed s)
           = nat (Count config)
       \<and> (\<not> stopping (pool s) \<longrightarrow> len (idle (pool s)) + length (held s) = nat (Count config))
       \<and> (distinct (buf (idle p0)) \<longrightarrow>
            distinct (buf (idle (pool s)) @ held s @ in_teardown s @ destroyed s))
       \<and> world s = fold (destroy p0) (destroyed s) w1"
proof -
  note I = reach_inv [OF assms]
  note n = New_success(3) [OF assms(1)]
  from I have m: "mset (buf (idle (pool s))) + mset (held s) + mset (in_teardown s)
      + mset (destroyed s) = mset (buf (idle p0))"
    by (simp add: pool_inv_def in_teardown_def)
  from inv_counts [OF I] n have c: "len (idle (pool s)) + length (held s) + length (in_teardown s)
      + length (destroyed s) = nat (Count config)"
    by (simp add: len_def)
  from c inv_not_stopping [OF I]
  have ns: "\<not> stopping (pool s) \<longrightarrow> len (idle (pool s)) + length (held s) = nat (Count config)"
    by auto
  from m have "mset (buf (idle (pool s)) @ held s @ in_teardown s @ destroyed s)
      = mset (buf (idle p0))" by (simp add: ac_simps)
  then have d: "distinct (buf (idle p0)) \<longrightarrow>
            distinct (buf (idle (pool s)) @ held s @ in_teardown s @ destroyed s)"
    by (metis mset_eq_imp_distinct_iff)
  from I have w: "world s = fold (destroy p0) (destroyed s) w1" by (simp add: pool_inv_def)
  from m c ns d w show ?thesis by blast
qed

theorem Pool_accounting_witness:
  "len (idle (pool waiting2)) + length (held waiting2) + length (in_teardown waiting2)
     + length (destroyed waiting2) = 2
   \<and> mset (buf (idle (pool waiting2))) + mset (held waiting2) + mset (in_teardown waiting2)
     + mset (destroyed waiting2) = mset [10, 11]"
  using Pool_accounting [OF New_config2 run_to_waiting2]
  by (simp add: waiting2_def pool_of_def config2_def len_def in_teardown_def)

text \<open>
  The claim as stated fails once \<open>Stop\<close> has destroyed objects: after the example run
  (a \<open>Get\<close>, a \<open>Stop\<close> and a \<open>Put\<close>, all completed) nothing is idle and nothing is held,
  and the capacity is 2.
\<close>

theorem Idle_plus_borrowed_counterexample:
  "New config2 [] = Returns ((Some (pool_of [10, 11] 2 False), None), [])
   \<and> run get_stop_put (start (pool_of [10, 11] 2 False) []) = Some stopped2
   \<and> len (idle (pool stopped2)) + length (held stopped2) \<noteq> nat (Count config2)"
  using New_config2 run_get_stop_put
  by (simp add: stopped2_def pool_of_def config2_def len_def)

text \<open>
  Claim C2. The call of \<open>Stop\<close> that closed \<open>p.stopping\<close> is in its loop with as many
  turns left as there are objects idle or held. Run from the head of the loop, it
  receives the idle objects oldest first and passes each to the destructor if there is
  one, without waiting, and is then left with one turn for each held object. While the
  queue is empty and a caller holds an object it waits. When it has returned, nothing is
  idle, nothing is held, and the destroyed objects are the \<open>n\<close> objects \<open>New\<close> placed in
  the pool, each destroyed once. A first call of \<open>Stop\<close> that runs with no other step in
  between returns when no object is held, having destroyed the idle objects oldest
  first, and waits for ever when an object is held.
\<close>

theorem Stop_teardown:
  assumes "New config w0 = Returns ((Some p0, None), w1)" and "run evs (start p0 w1) = Some s"
  shows "(\<forall>k. i < length (calls s) \<and> calls s ! i = AtLoop k \<and> \<not> crashed s \<longrightarrow>
            k = length (buf (idle (pool s))) + length (held s) \<and>
            run (replicate (2 * length (buf (idle (pool s)))) (EvStopStep i)) s =
              Some (s\<lparr>pool := (pool s)\<lparr>idle := (idle (pool s))\<lparr>buf := []\<rparr>\<rparr>,
                      world := fold (destroy (pool s)) (buf (idle (pool s))) (world s),
                      destroyed := destroyed s @ buf (idle (pool s)),
                      calls := (calls s)[i := AtLoop (length (held s))]\<rparr>))
       \<and> (\<forall>k. i < length (calls s) \<and> calls s ! i = AtLoop k \<and> buf (idle (pool s)) = [] \<and>
            held s \<noteq> [] \<longrightarrow>
            exec (EvStopStep i) s = None)
       \<and> (i < length (calls s) \<and> calls s ! i = Returned \<longrightarrow>
            buf (idle (pool s)) = [] \<and> held s = [] \<and> in_teardown s = [] \<and>
            mset (destroyed s) = mset (buf (idle p0)) \<and>
            length (destroyed s) = nat (Count config) \<and>
            world s = fold (destroy p0) (destroyed s) w1)
       \<and> (\<not> stopping (pool s) \<and> held s = [] \<longrightarrow>
            Stop (pool s) (world s) =
              Returns ((pool s)\<lparr>idle := (idle (pool s))\<lparr>buf := []\<rparr>, stopping := True\<rparr>,
                       fold (destroy (pool s)) (buf (idle (pool s))) (world s)))
       \<and> (\<not> stopping (pool s) \<and> held s \<noteq> [] \<longrightarrow> Stop (pool s) (world s) = Blocks)"
proof -
  note I = reach_inv [OF assms(1,2)]
  have c: "cap (idle (pool s)) = length (buf (idle p0))"
    using I by (simp add: pool_inv_def)
  have loop: "\<forall>k. i < length (calls s) \<and> calls s ! i = AtLoop k \<and> \<not> crashed s \<longrightarrow>
            k = length (buf (idle (pool s))) + length (held s) \<and>
            run (replicate (2 * length (buf (idle (pool s)))) (EvStopStep i)) s =
              Some (s\<lparr>pool := (pool s)\<lparr>idle := (idle (pool s))\<lparr>buf := []\<rparr>\<rparr>,
                      world := fold (destroy (pool s)) (buf (idle (pool s))) (world s),
                      destroyed := destroyed s @ buf (idle (pool s)),
                      calls := (calls s)[i := AtLoop (length (held s))]\<rparr>)"
  proof (intro allI impI)
    fix k assume a: "i < length (calls s) \<and> calls s ! i = AtLoop k \<and> \<not> crashed s"
    then have t: "tearing_down (calls s ! i)" and i: "i < length (calls s)" by simp_all
    from inv_tearing(3) [OF I i t] a
    have k: "k = length (buf (idle (pool s))) + length (held s)" by simp
    then have "length (buf (idle (pool s))) \<le> k" by simp
    from drain [OF _ i _ this] a k
    show "k = length (buf (idle (pool s))) + length (held s) \<and>
          run (replicate (2 * length (buf (idle (pool s)))) (EvStopStep i)) s =
              Some (s\<lparr>pool := (pool s)\<lparr>idle := (idle (pool s))\<lparr>buf := []\<rparr>\<rparr>,
                      world := fold (destroy (pool s)) (buf (idle (pool s))) (world s),
                      destroyed := destroyed s @ buf (idle (pool s)),
                      calls := (calls s)[i := AtLoop (length (held s))]\<rparr>)"
      by simp
  qed
  have waits: "\<forall>k. i < length (calls s) \<and> calls s ! i = AtLoop k \<and> buf (idle (pool s)) = [] \<and>
            held s \<noteq> [] \<longrightarrow>
            exec (EvStopStep i) s = None"
  proof (intro allI impI)
    fix k assume a: "i < length (calls s) \<and> calls s ! i = AtLoop k \<and> buf (idle (pool s)) = [] \<and>
            held s \<noteq> []"
    then have t: "tearing_down (calls s ! i)" and i: "i < length (calls s)" by simp_all
    from inv_tearing(3) [OF I i t] a obtain k' where "k = Suc k'"
      by (cases k) auto
    with a i show "exec (EvStopStep i) s = None"
      by (simp add: recv_def)
  qed
  have returned: "i < length (calls s) \<and> calls s ! i = Returned \<longrightarrow>
            buf (idle (pool s)) = [] \<and> held s = [] \<and> in_teardown s = [] \<and>
            mset (destroyed s) = mset (buf (idle p0)) \<and>
            length (destroyed s) = nat (Count config) \<and>
            world s = fold (destroy p0) (destroyed s) w1"
  proof
    assume a: "i < length (calls s) \<and> calls s ! i = Returned"
    then have t: "tearing_down (calls s ! i)" and i: "i < length (calls s)" by simp_all
    from inv_tearing [OF I i t] a
    have e: "buf (idle (pool s)) = []" "held s = []" "in_teardown s = []"
      and l: "length (destroyed s) = length (buf (idle p0))"
      by simp_all
    from I have "mset (buf (idle (pool s))) + mset (held s) + mset (in_teardown s)
        + mset (destroyed s) = mset (buf (idle p0))"
      by (simp add: pool_inv_def in_teardown_def)
    with e have m: "mset (destroyed s) = mset (buf (idle p0))"
      by simp
    from l New_success(3) [OF assms(1)] have n: "length (destroyed s) = nat (Count config)"
      by simp
    from I have "world s = fold (destroy p0) (destroyed s) w1" by (simp add: pool_inv_def)
    with e m n show "buf (idle (pool s)) = [] \<and> held s = [] \<and> in_teardown s = [] \<and>
            mset (destroyed s) = mset (buf (idle p0)) \<and>
            length (destroyed s) = nat (Count config) \<and>
            world s = fold (destroy p0) (destroyed s) w1"
      by simp
  qed
  have whole: "\<not> stopping (pool s) \<and> held s = [] \<longrightarrow>
            Stop (pool s) (world s) =
              Returns ((pool s)\<lparr>idle := (idle (pool s))\<lparr>buf := []\<rparr>, stopping := True\<rparr>,
                       fold (destroy (pool s)) (buf (idle (pool s))) (world s))"
  proof
    assume a: "\<not> stopping (pool s) \<and> held s = []"
    with inv_counts [OF I] inv_not_stopping [OF I] c
    have "cap (idle (pool s)) = len (idle (pool s\<lparr>stopping := True\<rparr>))"
      by (simp add: len_def)
    then have "cap (idle (pool s)) \<le> len (idle ((pool s)\<lparr>stopping := True\<rparr>))"
      and "cap (idle (pool s)) = length (buf (idle (pool s)))"
      by (simp_all add: len_def)
    from Stop_loop_drains [OF this(1), of "world s"] this(2) a
    show "Stop (pool s) (world s) =
              Returns ((pool s)\<lparr>idle := (idle (pool s))\<lparr>buf := []\<rparr>, stopping := True\<rparr>,
                       fold (destroy (pool s)) (buf (idle (pool s))) (world s))"
      by (simp add: Stop_def)
  qed
  have blocked: "\<not> stopping (pool s) \<and> held s \<noteq> [] \<longrightarrow> Stop (pool s) (world s) = Blocks"
  proof
    assume a: "\<not> stopping (pool s) \<and> held s \<noteq> []"
    then obtain m where "length (held s) = Suc m" by (cases "held s") auto
    with inv_counts [OF I] c
    have "len (idle ((pool s)\<lparr>stopping := True\<rparr>)) < cap (idle (pool s))"
      unfolding len_def by simp
    from Stop_loop_waits [OF this] a show "Stop (pool s) (world s) = Blocks"
      by (simp add: Stop_def)
  qed
  from loop waits returned whole blocked show ?thesis by blast
qed

theorem Stop_teardown_witness:
  "run (replicate 2 (EvStopStep 0)) draining2 = Some waiting2
   \<and> exec (EvStopStep 0) waiting2 = None
   \<and> destroyed stopped2 = [11, 10] \<and> world stopped2 = [11, 10]
   \<and> mset (destroyed stopped2) = mset [10, 11]
   \<and> Stop (pool_of [10, 11] 2 False) [] = Returns (pool_of [] 2 True, [10, 11])
   \<and> Stop (pool_of [11] 2 False) [] = Blocks"
proof -
  have r0: "run [] (start (pool_of [10, 11] 2 False) []) = Some (start (pool_of [10, 11] 2 False) [])"
    by simp
  have r1: "run [EvGet (Ctx None) RecvIdle] (start (pool_of [10, 11] 2 False) [])
      = Some ((start (pool_of [11] 2 False) [])\<lparr>held := [10]\<rparr>)"
    by (simp add: pool_of_def start_def recv_def)
  have d: "Stop (pool_of [10, 11] 2 False) [] = Returns (pool_of [] 2 True, [10, 11])"
    using Stop_teardown [OF New_config2 r0, of 0]
    by (simp add: start_def pool_of_def destroy_def spy_def)
  have e: "Stop (pool_of [11] 2 False) [] = Blocks"
    using Stop_teardown [OF New_config2 r1, of 0]
    by (simp add: start_def pool_of_def)
  have a: "run (replicate 2 (EvStopStep 0)) draining2 = Some waiting2"
    using Stop_teardown [OF New_config2 run_to_draining2, of 0]
    by (simp add: draining2_def waiting2_def pool_of_def destroy_def spy_def)
  have b: "exec (EvStopStep 0) waiting2 = None"
    using Stop_teardown [OF New_config2 run_to_waiting2, of 0]
    by (simp add: waiting2_def pool_of_def)
  have c: "mset (destroyed stopped2) = mset [10, 11]"
    using Stop_teardown [OF New_config2 run_get_stop_put, of 0]
    by (simp add: stopped2_def pool_of_def destroy_def spy_def)
  from a b c d e show ?thesis by (simp add: stopped2_def)
qed



text \<open>
  Claim C7. Under correct use \<open>Put\<close> of a held object never waits: the idle queue has
  room, and the object is appended at its tail. When \<open>p.stopping\<close> is already closed, the
  call of \<open>Stop\<close> that is tearing the pool down can go on without waiting until it has
  destroyed what it holds, the objects queued before and the returned object, which
  leaves the queue empty.
\<close>

theorem Put_never_blocks:
  assumes "New config w0 = Returns ((Some p0, None), w1)" and "run evs (start p0 w1) = Some s"
    and "object \<in> set (held s)"
  shows "Put (pool s) object =
           Some ((pool s)\<lparr>idle := (idle (pool s))\<lparr>buf := buf (idle (pool s)) @ [object]\<rparr>\<rparr>)
       \<and> (stopping (pool s) \<and> \<not> crashed s \<longrightarrow>
            (\<exists>i n s' s''. i < length (calls s) \<and> exec (EvPut object) s = Some s' \<and>
               run (replicate n (EvStopStep i)) s' = Some s'' \<and>
               buf (idle (pool s'')) = [] \<and>
               held s'' = remove1 object (held s) \<and>
               destroyed s'' = destroyed s @ in_teardown s @ buf (idle (pool s)) @ [object]))"
proof (intro conjI impI)
  note I = reach_inv [OF assms(1,2)]
  from assms(3) obtain m where h: "length (held s) = Suc m" by (cases "held s") auto
  from I have "cap (idle (pool s)) = length (buf (idle p0))" by (simp add: pool_inv_def)
  with inv_counts [OF I] h have room: "len (idle (pool s)) < cap (idle (pool s))"
    unfolding len_def by linarith
  then show P: "Put (pool s) object =
           Some ((pool s)\<lparr>idle := (idle (pool s))\<lparr>buf := buf (idle (pool s)) @ [object]\<rparr>\<rparr>)"
    by (simp add: Put_def send_def)
  assume a: "stopping (pool s) \<and> \<not> crashed s"
  define s' where "s' = s\<lparr>pool := (pool s)\<lparr>idle := (idle (pool s))\<lparr>buf := buf (idle (pool s)) @ [object]\<rparr>\<rparr>,
                held := remove1 object (held s)\<rparr>"
  from P a assms(3) have e: "exec (EvPut object) s = Some s'" by (simp add: s'_def)
  have s': "buf (idle (pool s')) = buf (idle (pool s)) @ [object]" "held s' = remove1 object (held s)"
    "calls s' = calls s" "destroyed s' = destroyed s" "crashed s' = crashed s"
    by (simp_all add: s'_def)
  from inv_stopping_call [OF I] a obtain i where i: "i < length (calls s)"
    and t: "tearing_down (calls s ! i)" by blast
  note T = inv_tearing [OF I i t]
  have "\<exists>n s''. run (replicate n (EvStopStep i)) s' = Some s'' \<and>
               buf (idle (pool s'')) = [] \<and>
               held s'' = remove1 object (held s) \<and>
               destroyed s'' = destroyed s @ in_teardown s @ buf (idle (pool s)) @ [object]"
  proof (cases "calls s ! i")
    case (AtLoop k)
    with T(3) h s' have k: "length (buf (idle (pool s'))) \<le> k" by simp
    from a s' have nc: "\<not> crashed s'" by simp
    from i s' have i': "i < length (calls s')" by simp
    from AtLoop s' have c': "calls s' ! i = AtLoop k" by simp
    from drain_from_loop [OF nc i' c' k] obtain s'' where
      r: "run (replicate (2 * length (buf (idle (pool s')))) (EvStopStep i)) s' = Some s''"
      and f: "buf (idle (pool s'')) = []" "held s'' = held s'"
        "destroyed s'' = destroyed s' @ buf (idle (pool s'))"
      by blast
    from f s' T(2) AtLoop have "buf (idle (pool s'')) = [] \<and>
               held s'' = remove1 object (held s) \<and>
               destroyed s'' = destroyed s @ in_teardown s @ buf (idle (pool s)) @ [object]"
      by simp
    with r show ?thesis by blast
  next
    case (AtDestroy k x)
    with T(3) h s' have k: "length (buf (idle (pool s'))) \<le> k" by simp
    from a s' have nc: "\<not> crashed s'" by simp
    from i s' have i': "i < length (calls s')" by simp
    from AtDestroy s' have c': "calls s' ! i = AtDestroy k x" by simp
    from drain_from_destroy [OF nc i' c' k] obtain s'' where
      r: "run (replicate (Suc (2 * length (buf (idle (pool s'))))) (EvStopStep i)) s' = Some s''"
      and f: "buf (idle (pool s'')) = []" "held s'' = held s'"
        "destroyed s'' = destroyed s' @ [x] @ buf (idle (pool s'))"
      by blast
    from f s' T(2) AtDestroy have "buf (idle (pool s'')) = [] \<and>
               held s'' = remove1 object (held s) \<and>
               destroyed s'' = destroyed s @ in_teardown s @ buf (idle (pool s)) @ [object]"
      by simp
    with r show ?thesis by blast
  next
    case Returned
    with T(3) h show ?thesis by simp
  qed (use t in simp_all)
  with e i show "\<exists>i n s' s''. i < length (calls s) \<and> exec (EvPut object) s = Some s' \<and>
               run (replicate n (EvStopStep i)) s' = Some s'' \<and>
               buf (idle (pool s'')) = [] \<and>
               held s'' = remove1 object (held s) \<and>
               destroyed s'' = destroyed s @ in_teardown s @ buf (idle (pool s)) @ [object]"
    by blast
qed

theorem Put_never_blocks_witness:
  "Put (pool waiting2) 10 = Some (pool_of [10] 2 True)
   \<and> exec (EvPut 10) waiting2 = Some (waiting2\<lparr>pool := pool_of [10] 2 True, held := []\<rparr>)
   \<and> run (replicate 2 (EvStopStep 0)) (waiting2\<lparr>pool := pool_of [10] 2 True, held := []\<rparr>) =
       Some (waiting2\<lparr>pool := pool_of [] 2 True, held := [], world := [11, 10],
                       destroyed := [11, 10], calls := [AtLoop 0]\<rparr>)"
  using Put_never_blocks [OF New_config2 run_to_waiting2, of 10]
  by (simp add: waiting2_def pool_of_def Put_def send_def recv_def len_def destroy_def spy_def
      eval_nat_numeral)

text \<open>
  Claim C8, as amended. Once \<open>p.stopping\<close> is closed a \<open>Get\<close> never waits: the case of
  \<open>p.stopping\<close> can proceed and returns the zero value with \<open>ErrStoppingOrStopped\<close>.
  Whenever the idle queue is empty, every outcome of \<open>Get\<close> is the zero value with an
  error and an unchanged pool: \<open>ErrStoppingOrStopped\<close>, or the error of the context when
  the context is done. After \<open>Stop\<close> has returned the idle queue is empty and no object is
  held, so \<open>Get\<close> returns no object.
\<close>

theorem Get_when_stopping:
  assumes "New config w0 = Returns ((Some p0, None), w1)" and "run evs (start p0 w1) = Some s"
    and "stopping (pool s)"
  shows "Get (pool s) c RecvStopping = Some ((0, Some ErrStoppingOrStopped), pool s)
       \<and> (buf (idle (pool s)) = [] \<longrightarrow>
            (\<forall>k r. Get (pool s) c k = Some r \<longrightarrow>
               r = ((0, Some ErrStoppingOrStopped), pool s) \<or>
               (\<exists>e. Err c = Some e \<and> r = ((0, Some e), pool s))))
       \<and> (Returned \<in> set (calls s) \<longrightarrow> buf (idle (pool s)) = [] \<and> held s = [])"
proof (intro conjI allI impI)
  note I = reach_inv [OF assms(1,2)]
  from assms(3) show "Get (pool s) c RecvStopping = Some ((0, Some ErrStoppingOrStopped), pool s)"
    by simp
  {
    fix k r
    assume "buf (idle (pool s)) = []" and "Get (pool s) c k = Some r"
    then show "r = ((0, Some ErrStoppingOrStopped), pool s) \<or>
               (\<exists>e. Err c = Some e \<and> r = ((0, Some e), pool s))"
      by (cases k) (auto simp: recv_def Done_def split: if_splits option.splits)
  }
  assume "Returned \<in> set (calls s)"
  then obtain i where i: "i < length (calls s)" and r: "calls s ! i = Returned"
    by (auto simp: in_set_conv_nth)
  then have t: "tearing_down (calls s ! i)" by simp
  from inv_tearing(3) [OF I i t] r show "buf (idle (pool s)) = []" and "held s = []"
    by simp_all
qed

theorem Get_when_stopping_witness:
  "Get (pool stopped2) (Ctx None) RecvStopping = Some ((0, Some ErrStoppingOrStopped), pool stopped2)
   \<and> Get_ready (pool stopped2) (Ctx None) = [RecvStopping]"
  using Get_when_stopping [OF New_config2 run_get_stop_put, of "Ctx None"]
  by (simp add: stopped2_def pool_of_def Get_ready_def recv_def Done_def)

text \<open>
  The claim as stated fails for a context that is done: after \<open>Stop\<close> has returned, a
  \<open>Get\<close> with a cancelled context may return the error of the context, which is not
  \<open>ErrStoppingOrStopped\<close>.
\<close>

theorem Get_after_stop_counterexample:
  "New config2 [] = Returns ((Some (pool_of [10, 11] 2 False), None), [])
   \<and> run get_stop_put (start (pool_of [10, 11] 2 False) []) = Some stopped2
   \<and> Get (pool stopped2) (Ctx (Some Canceled)) RecvDone = Some ((0, Some Canceled), pool stopped2)
   \<and> Canceled \<noteq> ErrStoppingOrStopped"
  using New_config2 run_get_stop_put
  by (simp add: stopped2_def Done_def Canceled_def ErrStoppingOrStopped_def)

end
